theory Spec2Isabelle
  imports Main "HOL-Library.Finite_Map"
begin

section \<open>Data model of package resource\<close>

text \<open>
  Pointers are addresses; \<open>None\<close> is Go's \<open>nil\<close>. Resources and handles live in one
  address space, because the runtime compares the two pointers with each other
  (\<open>runtime.AddCleanup\<close>). A program counter (\<open>uintptr\<close>) is a number.
\<close>

type_synonym addr = nat
type_synonym pc = nat

text \<open>
  \<open>type Handle struct { c atomic.Pointer[runtime.Cleanup]; typ string; profile string;
  pcs []uintptr }\<close>. The field \<open>c\<close> holds the identity of the registered cleanup or
  \<open>nil\<close>; \<open>pcs\<close> is a slice, whose \<open>nil\<close> value differs from the empty slice.
\<close>

record Handle =
  h_c :: "nat option"
  h_typ :: string
  h_profile :: string
  h_pcs :: "pc list option"

text \<open>\<open>NewHandle\<close> returns \<open>new(Handle)\<close>: the zero value of every field.\<close>

definition NewHandle :: Handle where
  "NewHandle = \<lparr>h_c = None, h_typ = [], h_profile = [], h_pcs = None\<rparr>"

text \<open>The fields of \<open>runtime.Frame\<close> that the package prints.\<close>

record Frame =
  Function :: string
  File :: string
  Line :: int

definition zero_Frame :: Frame where
  "zero_Frame = \<lparr>Function = [], File = [], Line = 0\<rparr>"

datatype outcome = Returned | Panicked string

section \<open>Formatting\<close>

text \<open>The verb \<open>%d\<close> of \<open>fmt.Sprintf\<close> on an \<open>int\<close>: decimal digits, a minus sign first
  when negative.\<close>

fun digits :: "nat \<Rightarrow> string" where
  "digits n =
     (if n < 10 then [''0123456789'' ! n]
      else digits (n div 10) @ [''0123456789'' ! (n mod 10)])"

declare digits.simps [simp del]

definition fmt_d :: "int \<Rightarrow> string" where
  "fmt_d i = (if i < 0 then CHR ''-'' # digits (nat (- i)) else digits (nat i))"

definition newline :: char where
  "newline = CHR 0x0A"

definition tab :: char where
  "tab = CHR 0x09"

text \<open>\<open>fmt.Sprintf("%s\n\t%s:%d\n", frame.Function, frame.File, frame.Line)\<close>\<close>

definition Sprintf_frame :: "Frame \<Rightarrow> string" where
  "Sprintf_frame f =
     Function f @ [newline, tab] @ File f @ '':'' @ fmt_d (Line f) @ [newline]"

section \<open>Stack frames\<close>

text \<open>
  \<open>runtime.CallersFrames(pcs)\<close> gives an iterator over the frames of the program
  counters; the symbol table \<open>symtab\<close> of the running binary is a parameter (one frame per
  program counter). \<open>Next\<close> returns the next frame and whether more follow; on an
  exhausted iterator it returns the zero frame and \<open>False\<close>.
\<close>

definition CallersFrames :: "(pc \<Rightarrow> Frame) \<Rightarrow> pc list \<Rightarrow> Frame list" where
  "CallersFrames symtab ps = map symtab ps"

fun Next :: "Frame list \<Rightarrow> Frame \<times> bool \<times> Frame list" where
  "Next [] = (zero_Frame, False, [])"
| "Next (f # fs) = (f, fs \<noteq> [], fs)"

text \<open>The loop of \<open>buildPanicMsg\<close>: the body runs before \<open>more\<close> is tested.\<close>

function frames_loop :: "Frame list \<Rightarrow> string \<Rightarrow> string" where
  "frames_loop frames msg =
     (case Next frames of (frame, more', rest) \<Rightarrow>
        (let msg' = msg @ Sprintf_frame frame
         in if \<not> more' then msg' else frames_loop rest msg'))"
  by pat_completeness auto
termination
  apply (relation "measure (\<lambda>(frames, msg). length frames)")
   apply simp
  subgoal for frames
    by (cases frames) auto
  done

declare frames_loop.simps [simp del]

definition buildPanicMsg :: "(pc \<Rightarrow> Frame) \<Rightarrow> Handle \<Rightarrow> string" where
  "buildPanicMsg symtab h =
     (let msg = h_typ h @ '' became unreachable without being released!''
      in case h_pcs h of
           None \<Rightarrow> msg
         | Some ps \<Rightarrow>
             frames_loop (CallersFrames symtab ps)
               (msg @ [newline] @ ''It started being tracked at:'' @ [newline]))"

section \<open>The runtime and pprof, as the package uses them\<close>

text \<open>
  The state of the process that the package reads and writes:
  \<^item> \<open>handles\<close>: the heap of \<open>Handle\<close> objects (an address never written holds the
    zero handle, as after \<open>NewHandle\<close>);
  \<^item> \<open>profiles\<close>: the custom profiles of \<open>runtime/pprof\<close> by name, each the map
    \<open>p.m\<close> from a value to the stack recorded by \<open>Add\<close> (the built-in profiles have
    names without the prefix of this package and are never looked up);
  \<^item> \<open>cleanups\<close>: the cleanups registered with \<open>runtime.AddCleanup\<close> that are still
    armed, each with the pointer it is attached to and its argument;
  \<^item> \<open>next_cleanup\<close>: the identity of the next cleanup;
  \<^item> \<open>fired\<close>: the calls of the failure behaviour (the variable \<open>cleanup\<close>) made by
    the runtime so far: the cleanup that ran, its handle, and what the call did.
\<close>

record world =
  handles :: "addr \<Rightarrow> Handle"
  profiles :: "string \<rightharpoonup> (addr, pc list) fmap"
  cleanups :: "nat \<rightharpoonup> addr \<times> addr"
  next_cleanup :: nat
  fired :: "(nat \<times> addr \<times> outcome) list"

definition init_world :: world where
  "init_world =
     \<lparr>handles = (\<lambda>_. NewHandle), profiles = Map.empty, cleanups = Map.empty,
      next_cleanup = 0, fired = []\<rparr>"

subsection \<open>reflect\<close>

text \<open>
  A type is a pointer type or another type, which is identified by the import path of
  its package together with its name. \<open>String\<close> prints a type with the package's name,
  not its path (the string is not unique among types), and a pointer type as \<open>*\<close>
  followed by the element type; \<open>Elem\<close> panics on a type that has no element type.
\<close>

datatype rtype = Named string string | PtrTo rtype

fun String :: "rtype \<Rightarrow> string" where
  "String (Named path n) = n"
| "String (PtrTo t) = CHR ''*'' # String t"

fun Elem :: "rtype \<Rightarrow> rtype option" where
  "Elem (Named path n) = None"
| "Elem (PtrTo t) = Some t"

text \<open>\<open>reflect.TypeOf(resource)\<close> for \<open>resource\<close> of the static type \<open>*T\<close>.\<close>

definition TypeOf :: "rtype \<Rightarrow> rtype" where
  "TypeOf T = PtrTo T"

subsection \<open>runtime\<close>

text \<open>
  A goroutine stack is the list of its program counters, innermost frame first.
  \<open>runtime.Callers(skip, buf)\<close> is given the stack \<open>st\<close> of the function that calls
  it (\<open>st ! 0\<close> is that function's own frame): skip 0 is the frame of \<open>Callers\<close>
  itself, skip 1 the caller of \<open>Callers\<close>. It fills at most \<open>n = len(buf)\<close> entries.
\<close>

text \<open>
  The program counter of the frame of \<open>runtime.Callers\<close> itself: some address in the
  runtime. Every call in this package skips it.
\<close>

definition pc_Callers :: pc where
  "pc_Callers = 0"

definition runtime_Callers :: "nat \<Rightarrow> nat \<Rightarrow> pc list \<Rightarrow> pc list" where
  "runtime_Callers skip n st = take n (drop skip (pc_Callers # st))"

text \<open>
  \<open>runtime.AddCleanup(ptr, cleanup, arg)\<close> panics when \<open>arg\<close> is the pointer \<open>ptr\<close>
  itself, and otherwise arms a new cleanup. \<open>Cleanup.Stop\<close> disarms it and has no
  effect on a cleanup that ran or was stopped.
\<close>

definition AddCleanup :: "addr \<Rightarrow> addr \<Rightarrow> world \<Rightarrow> (string + nat) \<times> world" where
  "AddCleanup ptr arg s =
     (if ptr = arg
      then (Inl ''runtime.AddCleanup: ptr is equal to arg, cleanup will never run'', s)
      else (Inr (next_cleanup s),
            s\<lparr>cleanups := (cleanups s)(next_cleanup s \<mapsto> (ptr, arg)),
              next_cleanup := Suc (next_cleanup s)\<rparr>))"

definition Stop :: "nat \<Rightarrow> world \<Rightarrow> world" where
  "Stop k s = s\<lparr>cleanups := (cleanups s)(k := None)\<rparr>"

subsection \<open>sync/atomic on the field \<open>c\<close>\<close>

definition Store :: "addr \<Rightarrow> nat option \<Rightarrow> world \<Rightarrow> world" where
  "Store a v s = s\<lparr>handles := (handles s)(a := (handles s a)\<lparr>h_c := v\<rparr>)\<rparr>"

definition Swap :: "addr \<Rightarrow> nat option \<Rightarrow> world \<Rightarrow> nat option \<times> world" where
  "Swap a v s = (h_c (handles s a), Store a v s)"

subsection \<open>runtime/pprof\<close>

text \<open>
  The program counters of the frame of \<open>Profile.Add\<close> and of the function
  \<open>lostProfileEvent\<close>, which \<open>Add\<close> records when the stack is empty after the skip:
  some addresses in the library.
\<close>

definition pc_Add :: pc where
  "pc_Add = 0"

definition pc_lostProfileEvent :: pc where
  "pc_lostProfileEvent = 0"

definition Lookup :: "string \<Rightarrow> world \<Rightarrow> (addr, pc list) fmap option" where
  "Lookup name s = profiles s name"

text \<open>\<open>pprof.NewProfile\<close> panics on the empty name and on a name in use.\<close>

definition NewProfile :: "string \<Rightarrow> world \<Rightarrow> outcome \<times> world" where
  "NewProfile name s =
     (if name = [] then (Panicked ''pprof: NewProfile with empty name'', s)
      else if profiles s name \<noteq> None
        then (Panicked (''pprof: NewProfile name already in use: '' @ name), s)
      else (Returned, s\<lparr>profiles := (profiles s)(name \<mapsto> fmempty)\<rparr>))"

text \<open>
  \<open>p.Add(value, skip)\<close> of the profile named \<open>name\<close>, called from a function with the
  stack \<open>st\<close>: it records \<open>runtime.Callers(skip + 1, ...)\<close> of its own stack, and panics
  when \<open>value\<close> is in the profile already. \<open>p.Remove\<close> deletes the value from the map;
  deleting an absent value does nothing. \<open>p.Count\<close> is the size of the map.
\<close>

definition Add :: "string \<Rightarrow> addr \<Rightarrow> nat \<Rightarrow> pc list \<Rightarrow> world \<Rightarrow> outcome \<times> world" where
  "Add name v skip st s =
     (case profiles s name of
        None \<Rightarrow> (Panicked ''pprof: use of uninitialized Profile'', s)
      | Some m \<Rightarrow>
          (let stk = runtime_Callers (skip + 1) 32 (pc_Add # st);
               stk = (if stk = [] then [pc_lostProfileEvent] else stk)
           in if fmlookup m v \<noteq> None
              then (Panicked ''pprof: Profile.Add of duplicate value'', s)
              else (Returned, s\<lparr>profiles := (profiles s)(name \<mapsto> fmupd v stk m)\<rparr>)))"

definition Remove :: "string \<Rightarrow> addr \<Rightarrow> world \<Rightarrow> world" where
  "Remove name v s =
     (case profiles s name of
        None \<Rightarrow> s
      | Some m \<Rightarrow> s\<lparr>profiles := (profiles s)(name \<mapsto> fmdrop v m)\<rparr>)"

definition Count :: "string \<Rightarrow> world \<Rightarrow> nat" where
  "Count name s = (case profiles s name of None \<Rightarrow> 0 | Some m \<Rightarrow> fcard (fmdom m))"

definition is_member :: "string \<Rightarrow> addr \<Rightarrow> world \<Rightarrow> bool" where
  "is_member name v s = (case profiles s name of None \<Rightarrow> False | Some m \<Rightarrow> fmlookup m v \<noteq> None)"

section \<open>resource.go\<close>

definition collectStack :: bool where
  "collectStack = True"

definition pprofEnabled :: bool where
  "pprofEnabled = True"

definition pprofPrefix :: string where
  "pprofPrefix = ''resource/''"

text \<open>\<open>profileName\<close>: \<open>pprofPrefix + reflect.TypeOf(resource).Elem().String()\<close>, given
  the type of \<open>resource\<close>.\<close>

definition profileName :: "rtype \<Rightarrow> string option" where
  "profileName t = (case Elem t of None \<Rightarrow> None | Some e \<Rightarrow> Some (pprofPrefix @ String e))"

text \<open>
  The default value of the variable \<open>cleanup\<close>: it builds the message and panics with
  it. It is given the handle's address and reads the handle from the heap.
\<close>

definition cleanup :: "(pc \<Rightarrow> Frame) \<Rightarrow> addr \<Rightarrow> world \<Rightarrow> outcome \<times> world" where
  "cleanup symtab h s = (let msg = buildPanicMsg symtab (handles s h) in (Panicked msg, s))"

text \<open>Plain writes of the other fields of a handle.\<close>

definition set_profile :: "addr \<Rightarrow> string \<Rightarrow> world \<Rightarrow> world" where
  "set_profile a v s = s\<lparr>handles := (handles s)(a := (handles s a)\<lparr>h_profile := v\<rparr>)\<rparr>"

definition set_typ :: "addr \<Rightarrow> string \<Rightarrow> world \<Rightarrow> world" where
  "set_typ a v s = s\<lparr>handles := (handles s)(a := (handles s a)\<lparr>h_typ := v\<rparr>)\<rparr>"

definition set_pcs :: "addr \<Rightarrow> pc list option \<Rightarrow> world \<Rightarrow> world" where
  "set_pcs a v s = s\<lparr>handles := (handles s)(a := (handles s a)\<lparr>h_pcs := v\<rparr>)\<rparr>"

text \<open>
  The block \<open>if pprofEnabled { ... }\<close> of \<open>Track\<close>: the name of the profile, the
  lookup (a second one under the mutex \<open>pprofM\<close> before the profile is created),
  \<open>p.Add(h, 2)\<close>, and the write of \<open>h.profile\<close>. \<open>T\<close> is the type argument, \<open>st\<close> the
  stack of \<open>Track\<close> (\<open>st ! 0\<close> is the frame of \<open>Track\<close>, \<open>st ! 1\<close> its call site).
\<close>

definition Track_pprof :: "rtype \<Rightarrow> addr \<Rightarrow> pc list \<Rightarrow> world \<Rightarrow> outcome \<times> world" where
  "Track_pprof T h st s =
     (case profileName (TypeOf T) of
        None \<Rightarrow> (Panicked ''reflect: Elem of invalid type'', s)
      | Some profile \<Rightarrow>
          (case (case Lookup profile s of
                   Some p \<Rightarrow> (Returned, s)
                 | None \<Rightarrow>
                     (case Lookup profile s of
                        Some p \<Rightarrow> (Returned, s)
                      | None \<Rightarrow> NewProfile profile s)) of
             (Panicked m, s1) \<Rightarrow> (Panicked m, s1)
           | (Returned, s1) \<Rightarrow>
               (case Add profile h 2 st s1 of
                  (Panicked m, s2) \<Rightarrow> (Panicked m, s2)
                | (Returned, s2) \<Rightarrow> (Returned, set_profile h profile s2))))"

text \<open>\<open>func Track[T any](resource *T, h *Handle)\<close>\<close>

definition Track :: "rtype \<Rightarrow> addr option \<Rightarrow> addr option \<Rightarrow> pc list \<Rightarrow> world \<Rightarrow> outcome \<times> world" where
  "Track T resource h st s =
     (case resource of
        None \<Rightarrow> (Panicked ''resource must not be nil'', s)
      | Some r \<Rightarrow>
          (case h of
             None \<Rightarrow> (Panicked ''handle must not be nil'', s)
           | Some ha \<Rightarrow>
               (case (if pprofEnabled then Track_pprof T ha st s else (Returned, s)) of
                  (Panicked m, s1) \<Rightarrow> (Panicked m, s1)
                | (Returned, s1) \<Rightarrow>
                    (let s2 = set_typ ha (String (TypeOf T)) s1;
                         s3 = (if collectStack
                               then set_pcs ha (Some (runtime_Callers 2 32 st)) s2
                               else s2)
                     in case AddCleanup r ha s3 of
                          (Inl m, s4) \<Rightarrow> (Panicked m, s4)
                        | (Inr k, s4) \<Rightarrow> (Returned, Store ha (Some k) s4)))))"

text \<open>
  \<open>func Untrack[T any](resource *T, h *Handle)\<close>. \<open>runtime.KeepAlive(resource)\<close>
  changes no state: it keeps \<open>resource\<close> reachable up to that point.
\<close>

definition Untrack :: "addr option \<Rightarrow> addr option \<Rightarrow> world \<Rightarrow> outcome \<times> world" where
  "Untrack resource h s =
     (case resource of
        None \<Rightarrow> (Panicked ''resource must not be nil'', s)
      | Some r \<Rightarrow>
          (case h of
             None \<Rightarrow> (Panicked ''handle must not be nil'', s)
           | Some ha \<Rightarrow>
               (case Swap ha None s of
                  (old, s1) \<Rightarrow>
                    (let s2 = (case old of Some k \<Rightarrow> Stop k s1 | None \<Rightarrow> s1)
                     in if pprofEnabled
                        then (case Lookup (h_profile (handles s2 ha)) s2 of
                                None \<Rightarrow> (Panicked ''resource is not tracked'', s2)
                              | Some p \<Rightarrow>
                                  (Returned, Remove (h_profile (handles s2 ha)) ha s2))
                        else (Returned, s2)))))"

section \<open>The collector\<close>

text \<open>
  When the object at \<open>r\<close> has become unreachable, the runtime runs every cleanup still
  attached to it, once: the cleanup is taken off the armed ones and the failure
  behaviour is called with the handle that was given as its argument.
\<close>

definition run_cleanup :: "(pc \<Rightarrow> Frame) \<Rightarrow> nat \<Rightarrow> world \<Rightarrow> world" where
  "run_cleanup symtab k s =
     (case cleanups s k of
        None \<Rightarrow> s
      | Some (r, ha) \<Rightarrow>
          (case cleanup symtab ha (s\<lparr>cleanups := (cleanups s)(k := None)\<rparr>) of
             (out, s1) \<Rightarrow> s1\<lparr>fired := fired s1 @ [(k, ha, out)]\<rparr>))"

definition attached :: "addr \<Rightarrow> world \<Rightarrow> nat list" where
  "attached r s =
     filter (\<lambda>k. case cleanups s k of None \<Rightarrow> False | Some (p, a) \<Rightarrow> p = r)
       [0..<next_cleanup s]"

definition Collect :: "(pc \<Rightarrow> Frame) \<Rightarrow> addr \<Rightarrow> world \<Rightarrow> world" where
  "Collect symtab r s = fold (run_cleanup symtab) (attached r s) s"

section \<open>Runs of operations\<close>

text \<open>
  A run is a sequence of calls of \<open>Track\<close> and \<open>Untrack\<close> and of collections, each
  taken as one step; it stops at the first call that panics.
\<close>

datatype op =
    OpTrack rtype "addr option" "addr option" "pc list"
  | OpUntrack "addr option" "addr option"
  | OpCollect addr

fun exec :: "(pc \<Rightarrow> Frame) \<Rightarrow> op \<Rightarrow> world \<Rightarrow> outcome \<times> world" where
  "exec symtab (OpTrack T resource h st) s = Track T resource h st s"
| "exec symtab (OpUntrack resource h) s = Untrack resource h s"
| "exec symtab (OpCollect r) s = (Returned, Collect symtab r s)"

fun run :: "(pc \<Rightarrow> Frame) \<Rightarrow> op list \<Rightarrow> world \<Rightarrow> outcome \<times> world" where
  "run symtab [] s = (Returned, s)"
| "run symtab (x # xs) s =
     (case exec symtab x s of
        (Panicked m, s1) \<Rightarrow> (Panicked m, s1)
      | (Returned, s1) \<Rightarrow> run symtab xs s1)"



text \<open>
  The handles tracked and not untracked since, by the calls of a run alone: \<open>Track\<close>
  enters the handle when its type argument is one of those selected by \<open>sel\<close>,
  \<open>Untrack\<close> takes the handle out. \<open>live_of_type T\<close> selects the type \<open>T\<close> itself,
  \<open>live_in_group T\<close> every type printed as \<open>T\<close> is.
\<close>

fun live_step :: "(rtype \<Rightarrow> bool) \<Rightarrow> op \<Rightarrow> addr fset \<Rightarrow> addr fset" where
  "live_step sel (OpTrack T' resource (Some ha) st) L = (if sel T' then finsert ha L else L)"
| "live_step sel (OpUntrack resource (Some ha)) L = L |-| {|ha|}"
| "live_step sel x L = L"

definition live :: "(rtype \<Rightarrow> bool) \<Rightarrow> op list \<Rightarrow> addr fset" where
  "live sel xs = fold (live_step sel) xs {||}"

definition live_of_type :: "rtype \<Rightarrow> op list \<Rightarrow> addr fset" where
  "live_of_type T xs = live (\<lambda>T'. T' = T) xs"

definition live_in_group :: "rtype \<Rightarrow> op list \<Rightarrow> addr fset" where
  "live_in_group T xs = live (\<lambda>T'. String T' = String T) xs"

text \<open>The name of the registry group of the type \<open>T\<close>.\<close>

definition groupKey :: "rtype \<Rightarrow> string" where
  "groupKey T = pprofPrefix @ String T"

text \<open>
  The usage rule of a handle: it is not given to \<open>Track\<close> again while it is tracked.
  The first argument is the set of the handles tracked at the moment.
\<close>

fun conforms :: "addr fset \<Rightarrow> op list \<Rightarrow> bool" where
  "conforms A [] = True"
| "conforms A (OpTrack T resource (Some ha) st # xs) =
     (ha |\<notin>| A \<and> conforms (finsert ha A) xs)"
| "conforms A (OpUntrack resource (Some ha) # xs) = conforms (A |-| {|ha|}) xs"
| "conforms A (x # xs) = conforms A xs"

section \<open>Concurrent calls of Untrack\<close>

text \<open>
  The points of one call of \<open>Untrack\<close>, one step for each access to shared state:
  the checks of the arguments, the swap of \<open>h.c\<close>, \<open>Stop\<close> of the cleanup that the swap
  returned, the read of \<open>h.profile\<close>, \<open>pprof.Lookup\<close>, \<open>p.Remove\<close>. The flag says whether
  this call stopped a cleanup.
\<close>

datatype upoint =
    U_entry
  | U_swap
  | U_stop "nat option"
  | U_read bool
  | U_lookup bool string
  | U_remove bool string
  | U_done bool
  | U_panic string

fun ustep :: "addr option \<Rightarrow> addr option \<Rightarrow> upoint \<Rightarrow> world \<Rightarrow> upoint \<times> world" where
  "ustep resource h U_entry s =
     (case resource of
        None \<Rightarrow> (U_panic ''resource must not be nil'', s)
      | Some r \<Rightarrow>
          (case h of
             None \<Rightarrow> (U_panic ''handle must not be nil'', s)
           | Some ha \<Rightarrow> (U_swap, s)))"
| "ustep resource h U_swap s =
     (case h of
        None \<Rightarrow> (U_panic ''invalid memory address or nil pointer dereference'', s)
      | Some ha \<Rightarrow> (case Swap ha None s of (old, s1) \<Rightarrow> (U_stop old, s1)))"
| "ustep resource h (U_stop old) s =
     (case old of
        Some k \<Rightarrow> (U_read True, Stop k s)
      | None \<Rightarrow> (U_read False, s))"
| "ustep resource h (U_read w) s =
     (if pprofEnabled
      then (case h of
              None \<Rightarrow> (U_panic ''invalid memory address or nil pointer dereference'', s)
            | Some ha \<Rightarrow> (U_lookup w (h_profile (handles s ha)), s))
      else (U_done w, s))"
| "ustep resource h (U_lookup w name) s =
     (case Lookup name s of
        None \<Rightarrow> (U_panic ''resource is not tracked'', s)
      | Some p \<Rightarrow> (U_remove w name, s))"
| "ustep resource h (U_remove w name) s =
     (case h of
        None \<Rightarrow> (U_panic ''invalid memory address or nil pointer dereference'', s)
      | Some ha \<Rightarrow> (U_done w, Remove name ha s))"
| "ustep resource h (U_done w) s = (U_done w, s)"
| "ustep resource h (U_panic m) s = (U_panic m, s)"

text \<open>
  Goroutines that all call \<open>Untrack(resource, h)\<close>, run by a schedule: the list of the
  goroutines in the order in which they take their steps.
\<close>

fun sched :: "addr option \<Rightarrow> addr option \<Rightarrow> nat list \<Rightarrow> upoint list \<times> world \<Rightarrow> upoint list \<times> world" where
  "sched resource h [] cfg = cfg"
| "sched resource h (i # js) (ts, s) =
     (if i < length ts
      then (case ustep resource h (ts ! i) s of
              (t', s') \<Rightarrow> sched resource h js (ts[i := t'], s'))
      else sched resource h js (ts, s))"

definition finished :: "upoint \<Rightarrow> bool" where
  "finished t = (case t of U_done w \<Rightarrow> True | U_panic m \<Rightarrow> True | _ \<Rightarrow> False)"

definition returned :: "upoint \<Rightarrow> bool" where
  "returned t = (case t of U_done w \<Rightarrow> True | _ \<Rightarrow> False)"

definition stopped_one :: "upoint \<Rightarrow> bool" where
  "stopped_one t =
     (case t of U_read w \<Rightarrow> w | U_lookup w n \<Rightarrow> w | U_remove w n \<Rightarrow> w | U_done w \<Rightarrow> w
      | _ \<Rightarrow> False)"

text \<open>A sequence of \<open>n\<close> calls of \<open>Untrack(resource, h)\<close>, one after the other.\<close>

fun Untrack_times :: "nat \<Rightarrow> addr option \<Rightarrow> addr option \<Rightarrow> world \<Rightarrow> outcome list \<times> world" where
  "Untrack_times 0 resource h s = ([], s)"
| "Untrack_times (Suc n) resource h s =
     (case Untrack resource h s of
        (out, s1) \<Rightarrow> (case Untrack_times n resource h s1 of (outs, s2) \<Rightarrow> (out # outs, s2)))"

section \<open>Lines of a message\<close>

text \<open>\<open>strings.Split(msg, "\\n")\<close>, as the tests read the message.\<close>

fun split_lines :: "string \<Rightarrow> string list" where
  "split_lines [] = [[]]"
| "split_lines (x # xs) =
     (if x = newline then [] # split_lines xs
      else (case split_lines xs of [] \<Rightarrow> [[x]] | l # ls \<Rightarrow> (x # l) # ls))"

text \<open>The frames that the calls of \<open>Next\<close> return up to the one with \<open>more\<close> false.\<close>

definition frames_returned :: "Frame list \<Rightarrow> Frame list" where
  "frames_returned fs = (if fs = [] then [zero_Frame] else fs)"

text \<open>The two lines printed for a frame.\<close>

definition frame_lines :: "Frame \<Rightarrow> string list" where
  "frame_lines f = [Function f, tab # File f @ '':'' @ fmt_d (Line f)]"

section \<open>States of a handle and of the process\<close>

text \<open>A handle is tracked: it holds a cleanup and is a member of the group it names.\<close>

definition tracked :: "addr \<Rightarrow> world \<Rightarrow> bool" where
  "tracked ha s =
     (h_c (handles s ha) \<noteq> None \<and> is_member (h_profile (handles s ha)) ha s)"


text \<open>A symbol table for examples.\<close>

definition ex_symtab :: "pc \<Rightarrow> Frame" where
  "ex_symtab p = \<lparr>Function = ''main.open'', File = ''main.go'', Line = int p\<rparr>"

text \<open>
  The stack that \<open>p.Add(h, 2)\<close> records when it is called from \<open>Track\<close> with the stack
  \<open>st\<close>, and the map of a profile (empty for a profile that does not exist).
\<close>

definition Add_stack :: "pc list \<Rightarrow> pc list" where
  "Add_stack st = (if take 32 (drop 1 st) = [] then [pc_lostProfileEvent] else take 32 (drop 1 st))"

definition members :: "string \<Rightarrow> world \<Rightarrow> (addr, pc list) fmap" where
  "members name s = (case profiles s name of None \<Rightarrow> fmempty | Some m \<Rightarrow> m)"

text \<open>
  The state of the test \<open>LocalUntrack\<close> after its call of \<open>Track\<close>: a resource of the
  type \<open>Resource\<close> of this package at the address 1, its handle at the address 2, and
  a stack of \<open>Track\<close>, its call site and two callers.
\<close>

definition ex_T :: rtype where
  "ex_T = Named ''github.com/AlekSi/resource'' ''resource.Resource''"

definition ex_st :: "pc list" where
  "ex_st = [10, 100, 1934, 1268]"

definition ex_tracked :: world where
  "ex_tracked = snd (Track ex_T (Some 1) (Some 2) ex_st init_world)"



text \<open>
  The groups agree with the calls made so far: the members of the group of every type
  \<open>T\<close> are the handles \<open>L T\<close>, each of them names this group, and \<open>A\<close> holds the
  handles that are in some group.
\<close>

definition groups_inv :: "addr fset \<Rightarrow> (rtype \<Rightarrow> addr fset) \<Rightarrow> world \<Rightarrow> bool" where
  "groups_inv A L s =
     ((\<forall>T. fmdom (members (groupKey T) s) = L T) \<and>
      (\<forall>T ha. ha |\<in>| L T \<longrightarrow> h_profile (handles s ha) = groupKey T) \<and>
      (\<forall>ha. (ha |\<in>| A) = (\<exists>T. ha |\<in>| L T)))"

text \<open>A type \<open>Resource\<close> of another package that is also named \<open>resource\<close>.\<close>

definition ex_T2 :: rtype where
  "ex_T2 = Named ''example.com/pool/resource'' ''resource.Resource''"

text \<open>
  Of a point of a call of \<open>Untrack\<close>: whether the call has taken the cleanup out of the
  handle (it holds the one the swap returned, or has stopped it), whether it is past its
  swap, and how many steps it has left at most.
\<close>

definition holds :: "upoint \<Rightarrow> bool" where
  "holds t = (case t of U_stop old \<Rightarrow> old \<noteq> None | _ \<Rightarrow> stopped_one t)"

definition past_swap :: "upoint \<Rightarrow> bool" where
  "past_swap t = (case t of U_entry \<Rightarrow> False | U_swap \<Rightarrow> False | _ \<Rightarrow> True)"

fun steps_left :: "upoint \<Rightarrow> nat" where
  "steps_left U_entry = 6"
| "steps_left U_swap = 5"
| "steps_left (U_stop old) = 4"
| "steps_left (U_read w) = 3"
| "steps_left (U_lookup w name) = 2"
| "steps_left (U_remove w name) = 1"
| "steps_left (U_done w) = 0"
| "steps_left (U_panic m) = 0"

text \<open>
  What holds while goroutines call \<open>Untrack\<close> of the handle \<open>ha\<close>, which held the
  cleanup \<open>k\<close> and was a member of the group \<open>g\<close> with the members \<open>D\<close>: the handle
  names the group; the group exists, with these members or without \<open>ha\<close>, and without
  it once a call has returned; the handle holds the cleanup and no call is past its
  swap, or the handle holds none and exactly one call has taken it; no call has
  panicked, each looks up the group \<open>g\<close>, and a swap returned \<open>k\<close> or nil; the cleanup
  is disarmed once a call has stopped one.
\<close>

definition point_ok :: "nat \<Rightarrow> string \<Rightarrow> upoint \<Rightarrow> bool" where
  "point_ok k g t =
     (case t of
        U_panic m \<Rightarrow> False
      | U_lookup w name \<Rightarrow> name = g
      | U_remove w name \<Rightarrow> name = g
      | U_stop old \<Rightarrow> old = None \<or> old = Some k
      | _ \<Rightarrow> True)"

definition untrack_inv :: "nat \<Rightarrow> addr \<Rightarrow> string \<Rightarrow> addr fset \<Rightarrow> upoint list \<Rightarrow> world \<Rightarrow> bool" where
  "untrack_inv k ha g D ts s =
     (h_profile (handles s ha) = g \<and>
      (\<exists>m. profiles s g = Some m \<and> (fmdom m = D \<or> fmdom m = D |-| {|ha|}) \<and>
           ((\<exists>t \<in> set ts. returned t) \<longrightarrow> ha |\<notin>| fmdom m)) \<and>
      (if h_c (handles s ha) = None then length (filter holds ts) = 1
       else h_c (handles s ha) = Some k \<and> length (filter holds ts) = 0 \<and>
            (\<forall>t \<in> set ts. \<not> past_swap t)) \<and>
      (\<forall>t \<in> set ts. point_ok k g t) \<and>
      ((\<exists>t \<in> set ts. stopped_one t) \<longrightarrow> cleanups s k = None))"

section \<open>Goroutines that track and untrack\<close>

text \<open>
  A goroutine that calls \<open>Track(resource, h)\<close> and then \<open>Untrack(resource, h)\<close>, with
  the type argument, the two pointers and the stack of its call of \<open>Track\<close>.
\<close>

record call =
  c_T :: rtype
  c_r :: addr
  c_h :: addr
  c_st :: "pc list"

text \<open>
  The points of the goroutine, one step for each access to shared state. In \<open>Track\<close>:
  the name of the profile, the first \<open>Lookup\<close>, \<open>pprofM.Lock\<close> (which waits while the
  mutex is held), the second \<open>Lookup\<close>, \<open>NewProfile\<close>, \<open>pprofM.Unlock\<close>, \<open>p.Add\<close>,
  the writes of \<open>h.profile\<close>, \<open>h.typ\<close> and \<open>h.pcs\<close>, \<open>runtime.AddCleanup\<close>, and the
  store of the cleanup in \<open>h.c\<close>. Then the points of \<open>Untrack\<close>. The state is the mutex
  \<open>pprofM\<close> (held or not) and the state of the process.
\<close>

datatype tpoint =
    T_entry
  | T_lookup string
  | T_lock string
  | T_lookup2 string
  | T_new string
  | T_unlock string
  | T_add string
  | T_profile string
  | T_typ
  | T_pcs
  | T_cleanup
  | T_store nat
  | T_untrack upoint
  | T_panic string

fun tstep :: "call \<Rightarrow> tpoint \<Rightarrow> bool \<times> world \<Rightarrow> tpoint \<times> bool \<times> world" where
  "tstep c T_entry (l, s) =
     (if pprofEnabled
      then (case profileName (TypeOf (c_T c)) of
              None \<Rightarrow> (T_panic ''reflect: Elem of invalid type'', l, s)
            | Some profile \<Rightarrow> (T_lookup profile, l, s))
      else (T_typ, l, s))"
| "tstep c (T_lookup profile) (l, s) =
     (case Lookup profile s of
        Some p \<Rightarrow> (T_add profile, l, s)
      | None \<Rightarrow> (T_lock profile, l, s))"
| "tstep c (T_lock profile) (l, s) =
     (if l then (T_lock profile, l, s) else (T_lookup2 profile, True, s))"
| "tstep c (T_lookup2 profile) (l, s) =
     (case Lookup profile s of
        Some p \<Rightarrow> (T_unlock profile, l, s)
      | None \<Rightarrow> (T_new profile, l, s))"
| "tstep c (T_new profile) (l, s) =
     (case NewProfile profile s of
        (Panicked m, s') \<Rightarrow> (T_panic m, l, s')
      | (Returned, s') \<Rightarrow> (T_unlock profile, l, s'))"
| "tstep c (T_unlock profile) (l, s) = (T_add profile, False, s)"
| "tstep c (T_add profile) (l, s) =
     (case Add profile (c_h c) 2 (c_st c) s of
        (Panicked m, s') \<Rightarrow> (T_panic m, l, s')
      | (Returned, s') \<Rightarrow> (T_profile profile, l, s'))"
| "tstep c (T_profile profile) (l, s) = (T_typ, l, set_profile (c_h c) profile s)"
| "tstep c T_typ (l, s) = (T_pcs, l, set_typ (c_h c) (String (TypeOf (c_T c))) s)"
| "tstep c T_pcs (l, s) =
     (T_cleanup, l,
      if collectStack then set_pcs (c_h c) (Some (runtime_Callers 2 32 (c_st c))) s else s)"
| "tstep c T_cleanup (l, s) =
     (case AddCleanup (c_r c) (c_h c) s of
        (Inl m, s') \<Rightarrow> (T_panic m, l, s')
      | (Inr k, s') \<Rightarrow> (T_store k, l, s'))"
| "tstep c (T_store k) (l, s) = (T_untrack U_entry, l, Store (c_h c) (Some k) s)"
| "tstep c (T_untrack u) (l, s) =
     (case ustep (Some (c_r c)) (Some (c_h c)) u s of (u', s') \<Rightarrow> (T_untrack u', l, s'))"
| "tstep c (T_panic m) (l, s) = (T_panic m, l, s)"

text \<open>The goroutines with the calls \<open>cs\<close>, run by a schedule.\<close>

fun psched :: "call list \<Rightarrow> nat list \<Rightarrow> tpoint list \<times> bool \<times> world \<Rightarrow> tpoint list \<times> bool \<times> world" where
  "psched cs [] cfg = cfg"
| "psched cs (i # js) (ts, l, s) =
     (if i < length ts \<and> i < length cs
      then (case tstep (cs ! i) (ts ! i) (l, s) of
              (t', l', s') \<Rightarrow> psched cs js (ts[i := t'], l', s'))
      else psched cs js (ts, l, s))"

text \<open>
  A goroutine is counted as tracking from the return of \<open>p.Add\<close> to the return of
  \<open>p.Remove\<close>; it is in the critical section between \<open>Lock\<close> and \<open>Unlock\<close>.
\<close>

definition tracking :: "tpoint \<Rightarrow> bool" where
  "tracking t =
     (case t of
        T_profile p \<Rightarrow> True | T_typ \<Rightarrow> True | T_pcs \<Rightarrow> True | T_cleanup \<Rightarrow> True
      | T_store k \<Rightarrow> True | T_untrack u \<Rightarrow> \<not> finished u
      | _ \<Rightarrow> False)"

definition in_cs :: "tpoint \<Rightarrow> bool" where
  "in_cs t = (case t of T_lookup2 p \<Rightarrow> True | T_new p \<Rightarrow> True | T_unlock p \<Rightarrow> True | _ \<Rightarrow> False)"

definition panicked :: "tpoint \<Rightarrow> bool" where
  "panicked t = (case t of T_panic m \<Rightarrow> True | T_untrack (U_panic m) \<Rightarrow> True | _ \<Rightarrow> False)"

text \<open>The goroutines of \<open>cs\<close> that are tracking in the group named \<open>name\<close>.\<close>

definition trackers :: "string \<Rightarrow> call list \<Rightarrow> tpoint list \<Rightarrow> (call \<times> tpoint) list" where
  "trackers name cs ts =
     filter (\<lambda>(c, t). groupKey (c_T c) = name \<and> tracking t) (zip cs ts)"

text \<open>
  What holds of a goroutine with the call \<open>c\<close> at the point \<open>t\<close>: it carries the name of
  its group; at \<open>NewProfile\<close> the profile does not exist, and from \<open>Unlock\<close> on it does;
  after the write of \<open>h.profile\<close> the handle names the group; it has not panicked.
\<close>

definition tpoint_ok :: "call \<Rightarrow> world \<Rightarrow> tpoint \<Rightarrow> bool" where
  "tpoint_ok c s t =
     (let g = groupKey (c_T c);
          named = (h_profile (handles s (c_h c)) = g \<and> profiles s g \<noteq> None)
      in case t of
           T_entry \<Rightarrow> True
         | T_lookup p \<Rightarrow> p = g
         | T_lock p \<Rightarrow> p = g
         | T_lookup2 p \<Rightarrow> p = g
         | T_new p \<Rightarrow> p = g \<and> profiles s g = None
         | T_unlock p \<Rightarrow> p = g \<and> profiles s g \<noteq> None
         | T_add p \<Rightarrow> p = g \<and> profiles s g \<noteq> None
         | T_profile p \<Rightarrow> p = g \<and> profiles s g \<noteq> None
         | T_typ \<Rightarrow> named
         | T_pcs \<Rightarrow> named
         | T_cleanup \<Rightarrow> named
         | T_store k \<Rightarrow> named
         | T_untrack u \<Rightarrow>
             named \<and>
             (case u of
                U_lookup w n \<Rightarrow> n = g
              | U_remove w n \<Rightarrow> n = g
              | U_panic m \<Rightarrow> False
              | _ \<Rightarrow> True)
         | T_panic m \<Rightarrow> False)"

text \<open>
  The calls use handles of their own, none of them the resource itself or a member of
  a group in the state \<open>s0\<close> in which the goroutines start.
\<close>

definition calls_ok :: "call list \<Rightarrow> world \<Rightarrow> bool" where
  "calls_ok cs s0 =
     (distinct (map c_h cs) \<and>
      (\<forall>c \<in> set cs. c_r c \<noteq> c_h c \<and> (\<forall>name. \<not> is_member name (c_h c) s0)))"

definition pairs_inv :: "call list \<Rightarrow> world \<Rightarrow> tpoint list \<Rightarrow> bool \<Rightarrow> world \<Rightarrow> bool" where
  "pairs_inv cs s0 ts l s =
     (length ts = length cs \<and>
      (\<forall>i < length cs. tpoint_ok (cs ! i) s (ts ! i)) \<and>
      length (filter in_cs ts) = (if l then 1 else 0) \<and>
      (\<forall>name a. (a |\<in>| fmdom (members name s)) =
           (a |\<in>| fmdom (members name s0) \<or>
            (\<exists>i < length cs. c_h (cs ! i) = a \<and> groupKey (c_T (cs ! i)) = name \<and>
                 tracking (ts ! i)))))"

text \<open>
  Two goroutines that track resources of the type \<open>Resource\<close>, and a schedule in
  which both look the profile up before it exists.
\<close>

definition ex_calls :: "call list" where
  "ex_calls =
     [\<lparr>c_T = ex_T, c_r = 1, c_h = 2, c_st = ex_st\<rparr>,
      \<lparr>c_T = ex_T, c_r = 3, c_h = 4, c_st = ex_st\<rparr>]"

definition ex_js :: "nat list" where
  "ex_js = [0, 1, 0, 1, 0, 1, 0, 0, 0, 1, 1, 1, 0, 1]"

section \<open>Properties of the message\<close>

lemma frames_loop_eq:
  "frames_loop fs msg = msg @ concat (map Sprintf_frame (frames_returned fs))"
proof (induction fs arbitrary: msg)
  case Nil
  show ?case
    by (simp add: frames_loop.simps [of "[]"] frames_returned_def)
next
  case (Cons f fs)
  show ?case
  proof (cases fs)
    case Nil
    then show ?thesis
      by (simp add: frames_loop.simps [of "[f]"] frames_returned_def)
  next
    case (Cons g gs)
    then have "frames_loop (f # fs) msg = frames_loop fs (msg @ Sprintf_frame f)"
      by (simp add: frames_loop.simps [of "f # g # gs"])
    also have "\<dots> = (msg @ Sprintf_frame f) @ concat (map Sprintf_frame (frames_returned fs))"
      by (rule Cons.IH)
    finally show ?thesis
      using Cons by (simp add: frames_returned_def)
  qed
qed

lemma buildPanicMsg_eq:
  "buildPanicMsg symtab h =
     h_typ h @ '' became unreachable without being released!'' @
     (case h_pcs h of
        None \<Rightarrow> []
      | Some ps \<Rightarrow>
          newline # ''It started being tracked at:'' @ newline #
          concat (map Sprintf_frame (frames_returned (CallersFrames symtab ps))))"
  by (simp add: buildPanicMsg_def frames_loop_eq split: option.splits)

lemma split_lines_plain: "newline \<notin> set a \<Longrightarrow> split_lines a = [a]"
  by (induction a) auto

lemma split_lines_append:
  "newline \<notin> set a \<Longrightarrow> split_lines (a @ newline # rest) = a # split_lines rest"
  by (induction a) auto

lemma digit_not_newline: "k < 10 \<Longrightarrow> ''0123456789'' ! k \<noteq> newline"
proof -
  assume "k < 10"
  then have "k \<in> {0, 1, 2, 3, 4, 5, 6, 7, 8, 9}"
    by auto
  then show ?thesis
    by (auto simp: newline_def)
qed

lemma digits_no_newline: "newline \<notin> set (digits n)"
proof (induction n rule: digits.induct)
  case (1 n)
  show ?case
  proof (cases "n < 10")
    case True
    then show ?thesis
      using digit_not_newline [of n] by (simp add: digits.simps [of n])
  next
    case False
    have "n mod 10 < 10" by simp
    then show ?thesis
      using False 1 digit_not_newline [of "n mod 10"] by (simp add: digits.simps [of n])
  qed
qed

lemma newline_neq [simp]:
  "newline \<noteq> CHR ''-''" "newline \<noteq> CHR '':''" "newline \<noteq> tab"
  by (simp_all add: newline_def tab_def)

lemma fmt_d_no_newline: "newline \<notin> set (fmt_d i)"
  by (simp add: fmt_d_def digits_no_newline)

lemma split_lines_frames:
  assumes "\<forall>f \<in> set fs. newline \<notin> set (Function f) \<and> newline \<notin> set (File f)"
  shows "split_lines (concat (map Sprintf_frame fs)) = concat (map frame_lines fs) @ [[]]"
  using assms
proof (induction fs)
  case Nil
  show ?case by simp
next
  case (Cons f fs)
  have a: "newline \<notin> set (Function f)" and b: "newline \<notin> set (tab # File f @ '':'' @ fmt_d (Line f))"
    using Cons.prems by (auto simp: fmt_d_no_newline)
  have "concat (map Sprintf_frame (f # fs)) =
      Function f @ newline # ((tab # File f @ '':'' @ fmt_d (Line f)) @ newline # concat (map Sprintf_frame fs))"
    by (simp add: Sprintf_frame_def)
  then have "split_lines (concat (map Sprintf_frame (f # fs))) =
      Function f # (tab # File f @ '':'' @ fmt_d (Line f)) # split_lines (concat (map Sprintf_frame fs))"
    using split_lines_append [OF a] split_lines_append [OF b] by simp
  then show ?case
    using Cons by (simp add: frame_lines_def)
qed

text \<open>
  C6. For every handle whose type name has no line break (and a symbol table whose
  function and file names have none), the message of \<open>buildPanicMsg\<close> splits into these
  lines. With no stack stored (\<open>h.pcs\<close> is \<open>nil\<close>, the empty acquisition stack of a handle
  that captured none) it is the single line
  \<open><typ> became unreachable without being released!\<close>. With a stack stored the second
  line is \<open>It started being tracked at:\<close>, and then come two lines for each frame that
  the frame iterator returns: the function, and a tab followed by \<open><file>:<line>\<close>;
  the message ends with a line break, hence the empty last line. The iterator returns
  the frames of the stored program counters, in order (and one zero frame for a stored
  slice of length zero, which \<open>Track\<close> never stores for a stack with a caller).
\<close>

theorem buildPanicMsg_lines:
  assumes "newline \<notin> set (h_typ h)"
    and "\<forall>p. newline \<notin> set (Function (symtab p)) \<and> newline \<notin> set (File (symtab p))"
  shows "split_lines (buildPanicMsg symtab h) =
     (case h_pcs h of
        None \<Rightarrow> [h_typ h @ '' became unreachable without being released!'']
      | Some ps \<Rightarrow>
          [h_typ h @ '' became unreachable without being released!'',
           ''It started being tracked at:''] @
          concat (map frame_lines (frames_returned (CallersFrames symtab ps))) @ [[]])"
proof (cases "h_pcs h")
  case None
  have "newline \<notin> set (h_typ h @ '' became unreachable without being released!'')"
    using assms(1) by (simp add: newline_def)
  then show ?thesis
    using None by (simp add: buildPanicMsg_eq split_lines_plain del: set_append)
next
  case (Some ps)
  let ?fs = "frames_returned (CallersFrames symtab ps)"
  have fs: "\<forall>f \<in> set ?fs. newline \<notin> set (Function f) \<and> newline \<notin> set (File f)"
    using assms(2) by (auto simp: frames_returned_def CallersFrames_def zero_Frame_def)
  have l1: "newline \<notin> set (h_typ h @ '' became unreachable without being released!'')"
    using assms(1) by (simp add: newline_def)
  have l2: "newline \<notin> set ''It started being tracked at:''"
    by (simp add: newline_def)
  have "buildPanicMsg symtab h =
      (h_typ h @ '' became unreachable without being released!'') @ newline #
      (''It started being tracked at:'' @ newline # concat (map Sprintf_frame ?fs))"
    using Some by (simp add: buildPanicMsg_eq)
  then have "split_lines (buildPanicMsg symtab h) =
      (h_typ h @ '' became unreachable without being released!'') #
      ''It started being tracked at:'' # split_lines (concat (map Sprintf_frame ?fs))"
    using split_lines_append [OF l1] split_lines_append [OF l2] by simp
  then show ?thesis
    using Some split_lines_frames [OF fs] by simp
qed

theorem buildPanicMsg_lines_witness:
  "newline \<notin> set ''*resource.Resource'' \<and>
   (\<forall>p. newline \<notin> set (Function (ex_symtab p)) \<and> newline \<notin> set (File (ex_symtab p))) \<and>
   split_lines (buildPanicMsg ex_symtab
      \<lparr>h_c = Some 0, h_typ = ''*resource.Resource'', h_profile = ''resource/resource.Resource'',
       h_pcs = Some [400, 7]\<rparr>) =
     [''*resource.Resource became unreachable without being released!'',
      ''It started being tracked at:'',
      ''main.open'', [tab] @ ''main.go:400'',
      ''main.open'', [tab] @ ''main.go:7'', '''']"
proof -
  have a: "newline \<notin> set ''*resource.Resource''"
    by (simp add: newline_def)
  have b: "\<forall>p. newline \<notin> set (Function (ex_symtab p)) \<and> newline \<notin> set (File (ex_symtab p))"
    by (simp add: ex_symtab_def newline_def)
  have d: "digits 400 = ''400''" "digits 7 = ''7''"
    by (simp_all add: digits.simps)
  show ?thesis
    using a b buildPanicMsg_lines [of "\<lparr>h_c = Some 0, h_typ = ''*resource.Resource'', h_profile = ''resource/resource.Resource'',
       h_pcs = Some [400, 7]\<rparr>" ex_symtab]
    by (simp add: frames_returned_def CallersFrames_def frame_lines_def ex_symtab_def fmt_d_def d)
qed

section \<open>Track and Untrack as state transformers\<close>

lemma profileName_TypeOf [simp]: "profileName (TypeOf T) = Some (groupKey T)"
  by (simp add: profileName_def TypeOf_def groupKey_def)

lemma groupKey_not_empty [simp]: "groupKey T \<noteq> []"
  by (simp add: groupKey_def pprofPrefix_def)

lemma Callers_in_Track: "runtime_Callers 2 32 st = take 32 (drop 1 st)"
  by (simp add: runtime_Callers_def)

lemma Callers_in_Add: "runtime_Callers 3 32 (pc_Add # st) = take 32 (drop 1 st)"
  by (simp add: runtime_Callers_def numeral_3_eq_3)

lemma Track_pprof_eq:
  "Track_pprof T ha st s =
     (if is_member (groupKey T) ha s then (Panicked ''pprof: Profile.Add of duplicate value'', s)
      else (Returned,
        s\<lparr>profiles := (profiles s)(groupKey T \<mapsto> fmupd ha (Add_stack st) (members (groupKey T) s)),
          handles := (handles s)(ha := (handles s ha)\<lparr>h_profile := groupKey T\<rparr>)\<rparr>))"
  by (auto simp: Track_pprof_def Lookup_def NewProfile_def Add_def is_member_def members_def
      Add_stack_def Callers_in_Add set_profile_def Let_def split: option.splits)

lemma Track_eq:
  "Track T (Some r) (Some ha) st s =
     (if is_member (groupKey T) ha s then (Panicked ''pprof: Profile.Add of duplicate value'', s)
      else if r = ha then
        (Panicked ''runtime.AddCleanup: ptr is equal to arg, cleanup will never run'',
         s\<lparr>profiles := (profiles s)(groupKey T \<mapsto> fmupd ha (Add_stack st) (members (groupKey T) s)),
           handles := (handles s)(ha := (handles s ha)
              \<lparr>h_profile := groupKey T, h_typ := CHR ''*'' # String T,
               h_pcs := Some (take 32 (drop 1 st))\<rparr>)\<rparr>)
      else (Returned,
        s\<lparr>profiles := (profiles s)(groupKey T \<mapsto> fmupd ha (Add_stack st) (members (groupKey T) s)),
          cleanups := (cleanups s)(next_cleanup s \<mapsto> (r, ha)),
          next_cleanup := Suc (next_cleanup s),
          handles := (handles s)(ha := (handles s ha)
             \<lparr>h_profile := groupKey T, h_typ := CHR ''*'' # String T,
              h_pcs := Some (take 32 (drop 1 st)), h_c := Some (next_cleanup s)\<rparr>)\<rparr>))"
  by (simp add: Track_def Track_pprof_eq pprofEnabled_def collectStack_def set_typ_def set_pcs_def
      Callers_in_Track AddCleanup_def Store_def TypeOf_def Let_def)

lemma Untrack_eq:
  "Untrack (Some r) (Some ha) s =
     (let s2 = s\<lparr>handles := (handles s)(ha := (handles s ha)\<lparr>h_c := None\<rparr>),
                 cleanups := (case h_c (handles s ha) of None \<Rightarrow> cleanups s
                             | Some k \<Rightarrow> (cleanups s)(k := None))\<rparr>
      in case profiles s (h_profile (handles s ha)) of
           None \<Rightarrow> (Panicked ''resource is not tracked'', s2)
         | Some m \<Rightarrow>
             (Returned, s2\<lparr>profiles := (profiles s)(h_profile (handles s ha) \<mapsto> fmdrop ha m)\<rparr>))"
  by (simp add: Untrack_def Swap_def Store_def Stop_def Lookup_def Remove_def pprofEnabled_def
      Let_def split: option.splits)

section \<open>What Untrack leaves unchanged\<close>

lemma Untrack_nil:
  "resource = None \<or> h = None \<Longrightarrow> snd (Untrack resource h s) = s"
  by (auto simp: Untrack_def split: option.splits)

text \<open>
  C10. Whatever a call of \<open>Untrack\<close> does, it leaves the fields \<open>typ\<close>, \<open>profile\<close> and
  \<open>pcs\<close> of every handle as they were, and every other handle entirely. Of its own
  handle it clears the field \<open>c\<close>; among the armed cleanups it changes none but the one
  that this field held; among the profiles it changes none but the one the handle
  names, and there the entry of no other value; it creates and deletes no profile. With
  a nil argument it changes nothing at all.
\<close>

theorem Untrack_frame:
  assumes "Untrack resource h s = (out, s')"
  shows "(\<forall>a. h_typ (handles s' a) = h_typ (handles s a) \<and>
              h_profile (handles s' a) = h_profile (handles s a) \<and>
              h_pcs (handles s' a) = h_pcs (handles s a)) \<and>
         (\<forall>a. h \<noteq> Some a \<longrightarrow> handles s' a = handles s a) \<and>
         (\<forall>ha. h = Some ha \<and> resource \<noteq> None \<longrightarrow>
              h_c (handles s' ha) = None \<and>
              (\<forall>k. h_c (handles s ha) \<noteq> Some k \<longrightarrow> cleanups s' k = cleanups s k) \<and>
              (\<forall>name. name \<noteq> h_profile (handles s ha) \<longrightarrow> profiles s' name = profiles s name) \<and>
              (\<forall>name a. a \<noteq> ha \<longrightarrow>
                   fmlookup (members name s') a = fmlookup (members name s) a)) \<and>
         (\<forall>name. (profiles s' name = None) = (profiles s name = None)) \<and>
         (resource = None \<or> h = None \<longrightarrow> s' = s) \<and>
         next_cleanup s' = next_cleanup s \<and> fired s' = fired s"
proof (cases "resource = None \<or> h = None")
  case True
  then have "s' = s"
    using assms Untrack_nil [of resource h s] by simp
  then show ?thesis
    using True by auto
next
  case False
  then obtain r ha where rh: "resource = Some r" "h = Some ha"
    by auto
  show ?thesis
  proof (cases "profiles s (h_profile (handles s ha))")
    case None
    then have "s' = s\<lparr>handles := (handles s)(ha := (handles s ha)\<lparr>h_c := None\<rparr>),
                 cleanups := (case h_c (handles s ha) of None \<Rightarrow> cleanups s
                             | Some k \<Rightarrow> (cleanups s)(k := None))\<rparr>"
      using assms rh by (simp add: Untrack_eq Let_def)
    then show ?thesis
      using rh by (auto simp: members_def split: option.splits)
  next
    case (Some m)
    then have "s' = s\<lparr>handles := (handles s)(ha := (handles s ha)\<lparr>h_c := None\<rparr>),
                 cleanups := (case h_c (handles s ha) of None \<Rightarrow> cleanups s
                             | Some k \<Rightarrow> (cleanups s)(k := None)),
                 profiles := (profiles s)(h_profile (handles s ha) \<mapsto> fmdrop ha m)\<rparr>"
      using assms rh by (simp add: Untrack_eq Let_def)
    then show ?thesis
      using rh Some by (auto simp: members_def split: option.splits)
  qed
qed

section \<open>The example state\<close>

lemma init_not_member [simp]: "\<not> is_member name a init_world"
  by (simp add: is_member_def init_world_def)

lemma ex_tracked_eq:
  "ex_tracked =
     \<lparr>handles = (\<lambda>_. NewHandle)(2 :=
        \<lparr>h_c = Some 0, h_typ = ''*resource.Resource'',
         h_profile = ''resource/resource.Resource'', h_pcs = Some [100, 1934, 1268]\<rparr>),
      profiles = [''resource/resource.Resource'' \<mapsto> fmupd 2 [100, 1934, 1268] fmempty],
      cleanups = [0 \<mapsto> (1, 2)], next_cleanup = Suc 0, fired = []\<rparr>"
  by (simp add: ex_tracked_def Track_eq ex_T_def ex_st_def groupKey_def pprofPrefix_def
      Add_stack_def members_def is_member_def init_world_def NewHandle_def)

lemma ex_Track_returned: "Track ex_T (Some 1) (Some 2) ex_st init_world = (Returned, ex_tracked)"
  by (simp add: ex_tracked_def Track_eq)

theorem Untrack_frame_witness:
  "Untrack (Some 1) (Some 2) ex_tracked = (Returned, snd (Untrack (Some 1) (Some 2) ex_tracked)) \<and>
   h_typ (handles (snd (Untrack (Some 1) (Some 2) ex_tracked)) 2) = ''*resource.Resource'' \<and>
   h_profile (handles (snd (Untrack (Some 1) (Some 2) ex_tracked)) 2) = ''resource/resource.Resource'' \<and>
   h_pcs (handles (snd (Untrack (Some 1) (Some 2) ex_tracked)) 2) = Some [100, 1934, 1268] \<and>
   h_c (handles (snd (Untrack (Some 1) (Some 2) ex_tracked)) 2) = None \<and>
   h_c (handles ex_tracked 2) = Some 0"
proof -
  have u: "Untrack (Some 1) (Some 2) ex_tracked = (Returned, snd (Untrack (Some 1) (Some 2) ex_tracked))"
    by (simp add: Untrack_eq ex_tracked_eq Let_def)
  have b: "handles ex_tracked 2 = \<lparr>h_c = Some 0, h_typ = ''*resource.Resource'',
         h_profile = ''resource/resource.Resource'', h_pcs = Some [100, 1934, 1268]\<rparr>"
    by (simp add: ex_tracked_eq)
  show ?thesis
    using u b Untrack_frame [OF u] by simp
qed

section \<open>The failure path and the registry\<close>

lemma run_cleanup_frame:
  "profiles (run_cleanup symtab k s) = profiles s \<and> handles (run_cleanup symtab k s) = handles s"
  by (simp add: run_cleanup_def cleanup_def Let_def split: option.splits prod.splits)

lemma fold_run_cleanup_frame:
  "profiles (fold (run_cleanup symtab) ks s) = profiles s \<and>
   handles (fold (run_cleanup symtab) ks s) = handles s"
  by (induction ks arbitrary: s) (simp_all add: run_cleanup_frame)

text \<open>
  C9. The failure behaviour changes no state: it builds its message and panics. A
  collection, which runs it for every cleanup attached to the collected object, leaves
  every profile as it was: the members of every group and their number are the same
  after it, and so are the handles.
\<close>

theorem Collect_keeps_groups:
  "snd (cleanup symtab ha s) = s \<and>
   profiles (Collect symtab r s) = profiles s \<and>
   is_member name a (Collect symtab r s) = is_member name a s \<and>
   Count name (Collect symtab r s) = Count name s \<and>
   handles (Collect symtab r s) = handles s"
  by (simp add: Collect_def fold_run_cleanup_frame cleanup_def is_member_def Count_def)

text \<open>
  The test \<open>LocalCleanup\<close>: the resource is collected while tracked. The failure
  behaviour is called once, with the handle, and the group still counts one member.
\<close>

lemma ex_leak:
  "fired (Collect ex_symtab 1 ex_tracked) =
     [(0, 2, Panicked (buildPanicMsg ex_symtab (handles ex_tracked 2)))] \<and>
   cleanups (Collect ex_symtab 1 ex_tracked) = Map.empty \<and>
   Count ''resource/resource.Resource'' (Collect ex_symtab 1 ex_tracked) = 1 \<and>
   Count ''resource/resource.Resource'' ex_tracked = 1"
proof -
  have a: "attached 1 ex_tracked = [0]"
    by (simp add: attached_def ex_tracked_eq)
  have "Collect ex_symtab 1 ex_tracked = run_cleanup ex_symtab 0 ex_tracked"
    using a by (simp add: Collect_def)
  then show ?thesis
    by (simp add: run_cleanup_def cleanup_def ex_tracked_eq Count_def fcard_finsert_if)
qed

section \<open>What Track stores in the handle\<close>

lemma Track_Returned:
  assumes "Track T (Some r) (Some ha) st s = (Returned, s')"
  shows "\<not> is_member (groupKey T) ha s" and "r \<noteq> ha"
    and "s' = s\<lparr>profiles := (profiles s)(groupKey T \<mapsto> fmupd ha (Add_stack st) (members (groupKey T) s)),
          cleanups := (cleanups s)(next_cleanup s \<mapsto> (r, ha)),
          next_cleanup := Suc (next_cleanup s),
          handles := (handles s)(ha := (handles s ha)
             \<lparr>h_profile := groupKey T, h_typ := CHR ''*'' # String T,
              h_pcs := Some (take 32 (drop 1 st)), h_c := Some (next_cleanup s)\<rparr>)\<rparr>"
  using assms by (auto simp: Track_eq split: if_splits)

lemma Track_handle:
  assumes "Track T (Some r) (Some ha) st s = (Returned, s')"
  shows "handles s' ha =
     \<lparr>h_c = Some (next_cleanup s), h_typ = CHR ''*'' # String T, h_profile = groupKey T,
      h_pcs = Some (take 32 (drop 1 st))\<rparr>"
  by (simp add: Track_Returned(3) [OF assms])

text \<open>
  C8. When \<open>Track\<close> returns, the handle holds the program counters of the stack from the
  call site of \<open>Track\<close> on, at most 32 of them: the frame of \<open>Track\<close> itself (\<open>st ! 0\<close>)
  is skipped. For a stack that has a caller of \<open>Track\<close>, the first one stored is the call
  site \<open>st ! 1\<close>, and the first frame that \<open>runtime.CallersFrames\<close> gives for the stored
  slice is the frame of the call site, with its file and line.
\<close>

theorem Track_stack:
  assumes "Track T (Some r) (Some ha) st s = (Returned, s')"
  shows "h_pcs (handles s' ha) = Some (take 32 (drop 1 st)) \<and>
         (1 < length st \<longrightarrow>
            (\<exists>rest. h_pcs (handles s' ha) = Some (st ! 1 # rest)) \<and>
            hd (CallersFrames symtab (take 32 (drop 1 st))) = symtab (st ! 1))"
proof -
  have p: "h_pcs (handles s' ha) = Some (take 32 (drop 1 st))"
    by (simp add: Track_handle [OF assms])
  have "take 32 (drop 1 st) = st ! 1 # take 31 (drop 2 st)" if "1 < length st"
  proof -
    from that obtain x y zs where "st = x # y # zs"
      by (cases st; cases "tl st") auto
    then show ?thesis
      by simp
  qed
  then show ?thesis
    using p by (auto simp: CallersFrames_def)
qed

theorem Track_stack_witness:
  "Track ex_T (Some 1) (Some 2) ex_st init_world = (Returned, ex_tracked) \<and>
   1 < length ex_st \<and> ex_st ! 1 = 100 \<and>
   h_pcs (handles ex_tracked 2) = Some [100, 1934, 1268] \<and>
   File (hd (CallersFrames ex_symtab [100, 1934, 1268])) = ''main.go'' \<and>
   Line (hd (CallersFrames ex_symtab [100, 1934, 1268])) = 100"
proof -
  have l: "1 < length ex_st" "ex_st ! 1 = 100" "take 32 (drop 1 ex_st) = [100, 1934, 1268]"
    by (simp_all add: ex_st_def)
  show ?thesis
    using Track_stack [OF ex_Track_returned, of ex_symtab] l ex_Track_returned
    by (simp add: ex_symtab_def)
qed

subsection \<open>The stored slice of length zero\<close>

text \<open>
  A handle whose \<open>pcs\<close> is a slice of length zero, not \<open>nil\<close>, gets the second line and
  the two lines of the zero frame. \<open>Track\<close> stores no such slice when its stack has a
  caller.
\<close>

lemma buildPanicMsg_empty_slice:
  "h_pcs h = Some [] \<Longrightarrow>
   buildPanicMsg symtab h =
     h_typ h @ '' became unreachable without being released!'' @ [newline] @
     ''It started being tracked at:'' @ [newline] @ [newline, tab] @ '':0'' @ [newline]"
  by (simp add: buildPanicMsg_eq frames_returned_def CallersFrames_def Sprintf_frame_def
      zero_Frame_def fmt_d_def digits.simps)

lemma Track_pcs_not_empty:
  assumes "Track T (Some r) (Some ha) st s = (Returned, s')" and "1 < length st"
  shows "h_pcs (handles s' ha) \<noteq> Some []"
  using assms(2) by (simp add: Track_handle [OF assms(1)])

subsection \<open>The stored names\<close>

text \<open>
  The names that \<open>Track\<close> stores: the group key is the prefix followed by the printed
  element type, the type name is the printed pointer type, with its star.
\<close>

lemma Track_names:
  assumes "Track T (Some r) (Some ha) st s = (Returned, s')"
  shows "h_profile (handles s' ha) = pprofPrefix @ String T"
    and "h_typ (handles s' ha) = CHR ''*'' # String T"
    and "is_member (pprofPrefix @ String T) ha s'"
  by (simp_all add: Track_Returned(3) [OF assms] groupKey_def is_member_def)

text \<open>
  C7, at the call \<open>Track(res, res.h)\<close> of the tests: the group key is
  \<open>resource/resource.Resource\<close>, the prefix and the printed type of the resource, but the
  stored type name is \<open>*resource.Resource\<close>, so the group key is not the prefix followed
  by the stored type name.
\<close>

theorem Track_typ_has_star:
  "Track ex_T (Some 1) (Some 2) ex_st init_world = (Returned, ex_tracked) \<and>
   String ex_T = ''resource.Resource'' \<and>
   h_profile (handles ex_tracked 2) = ''resource/resource.Resource'' \<and>
   h_typ (handles ex_tracked 2) = ''*resource.Resource'' \<and>
   h_profile (handles ex_tracked 2) \<noteq> pprofPrefix @ h_typ (handles ex_tracked 2)"
proof -
  have "String ex_T = ''resource.Resource''"
    by (simp add: ex_T_def)
  moreover have "handles ex_tracked 2 =
      \<lparr>h_c = Some 0, h_typ = ''*resource.Resource'',
       h_profile = ''resource/resource.Resource'', h_pcs = Some [100, 1934, 1268]\<rparr>"
    by (simp add: ex_tracked_eq)
  ultimately show ?thesis
    using ex_Track_returned by (simp add: pprofPrefix_def)
qed

section \<open>When Track panics\<close>

lemma Track_nil:
  "Track T None h st s = (Panicked ''resource must not be nil'', s)"
  "Track T (Some r) None st s = (Panicked ''handle must not be nil'', s)"
  by (simp_all add: Track_def)



section \<open>States of a run\<close>


lemma empty_not_groupKey [simp]: "[] \<noteq> groupKey T"
  by (simp add: groupKey_def pprofPrefix_def)








lemma run_Cons_Returned:
  "run symtab (x # xs) s = (Returned, s') \<longleftrightarrow>
     (\<exists>s1. exec symtab x s = (Returned, s1) \<and> run symtab xs s1 = (Returned, s'))"
  by (auto split: prod.splits outcome.splits)


section \<open>Untrack of a handle that was never tracked\<close>



lemma Collect_frame:
  "profiles (Collect symtab r s) = profiles s" "handles (Collect symtab r s) = handles s"
  by (simp_all add: Collect_def fold_run_cleanup_frame)




lemma ex_run: "run symtab [OpTrack ex_T (Some 1) (Some 2) ex_st] init_world = (Returned, ex_tracked)"
  using ex_Track_returned by simp



section \<open>A cleanup that was stopped never runs\<close>


















section \<open>The count of a group\<close>

lemma groupKey_eq_iff [simp]: "groupKey T = groupKey T' \<longleftrightarrow> String T = String T'"
  by (simp add: groupKey_def)

lemma fcard_single [simp]: "fcard {|a|} = 1"
  by (simp add: fcard_finsert_if)

lemma Count_members: "Count name s = fcard (fmdom (members name s))"
  by (simp add: Count_def members_def split: option.splits)

lemma is_member_members: "is_member name a s \<longleftrightarrow> a |\<in>| fmdom (members name s)"
  by (auto simp: is_member_def members_def split: option.splits intro: fmdomI dest: fmdom_notD)

lemma Track_Count:
  assumes "Track T (Some r) (Some ha) st s = (Returned, s')"
  shows "Count (groupKey T) s' = Count (groupKey T) s + 1"
proof -
  have "ha |\<notin>| fmdom (members (groupKey T) s)"
    using Track_Returned(1) [OF assms] by (simp add: is_member_members)
  then show ?thesis
    by (simp add: Track_Returned(3) [OF assms] Count_members members_def fcard_finsert_disjoint)
qed

lemma Untrack_Count:
  assumes "is_member (h_profile (handles s ha)) ha s"
  shows "fst (Untrack (Some r) (Some ha) s) = Returned"
    and "Count (h_profile (handles s ha)) (snd (Untrack (Some r) (Some ha) s)) + 1 =
         Count (h_profile (handles s ha)) s"
proof -
  obtain m where m: "profiles s (h_profile (handles s ha)) = Some m" and a: "ha |\<in>| fmdom m"
    using assms by (auto simp: is_member_def split: option.splits intro: fmdomI)
  then show "fst (Untrack (Some r) (Some ha) s) = Returned"
    by (simp add: Untrack_eq Let_def)
  have "Count (h_profile (handles s ha)) (snd (Untrack (Some r) (Some ha) s)) =
      fcard (fmdom m |-| {|ha|})"
    using m by (simp add: Untrack_eq Let_def Count_def)
  then show "Count (h_profile (handles s ha)) (snd (Untrack (Some r) (Some ha) s)) + 1 =
         Count (h_profile (handles s ha)) s"
    using m fcard_Suc_fminus1 [OF a] by (simp add: Count_def)
qed

lemma members_Track:
  assumes "Track T' (Some r) (Some ha) st s = (Returned, s')"
  shows "fmdom (members (groupKey T) s') =
     (if String T' = String T then finsert ha (fmdom (members (groupKey T) s))
      else fmdom (members (groupKey T) s))"
proof (cases "String T' = String T")
  case True
  then show ?thesis
    by (simp add: Track_Returned(3) [OF assms] members_def groupKey_def)
next
  case False
  then show ?thesis
    by (simp add: Track_Returned(3) [OF assms] members_def)
qed

lemma members_Untrack:
  assumes "Untrack (Some r) (Some ha) s = (Returned, s')"
  shows "fmdom (members name s') =
     (if name = h_profile (handles s ha) then fmdom (members name s) |-| {|ha|}
      else fmdom (members name s))"
  using assms by (auto simp: Untrack_eq Let_def members_def split: option.splits)

lemma exec_groups:
  assumes "groups_inv A L s" and "exec symtab x s = (Returned, s')" and "conforms A (x # xs)"
  shows "\<exists>A'. groups_inv A' (\<lambda>T. live_step (\<lambda>T'. String T' = String T) x (L T)) s' \<and>
              conforms A' xs"
proof (cases x)
  case (OpTrack T' resource h st)
  with assms(2) obtain r ha where rh: "resource = Some r" "h = Some ha"
    and t: "Track T' (Some r) (Some ha) st s = (Returned, s')"
    by (cases resource; cases h) (auto simp: Track_nil)
  have fresh: "ha |\<notin>| A" and c: "conforms (finsert ha A) xs"
    using assms(3) OpTrack rh by simp_all
  have hs: "handles s' = (handles s)(ha := (handles s' ha))" "h_profile (handles s' ha) = groupKey T'"
    by (simp_all add: Track_Returned(3) [OF t])
  have "groups_inv (finsert ha A) (\<lambda>T. live_step (\<lambda>T'. String T' = String T) x (L T)) s'"
    unfolding groups_inv_def
  proof (intro conjI allI impI)
    fix T
    show "fmdom (members (groupKey T) s') = live_step (\<lambda>T'. String T' = String T) x (L T)"
      using assms(1) OpTrack rh by (simp add: members_Track [OF t] groups_inv_def)
  next
    fix T hb
    assume "hb |\<in>| live_step (\<lambda>T'. String T' = String T) x (L T)"
    then have "(hb = ha \<and> String T' = String T) \<or> hb |\<in>| L T"
      using OpTrack rh by (auto split: if_splits)
    moreover have "hb \<noteq> ha" if "hb |\<in>| L T"
      using that fresh assms(1) by (auto simp: groups_inv_def)
    ultimately show "h_profile (handles s' hb) = groupKey T"
      using assms(1) hs(2) by (subst hs(1)) (auto simp: groups_inv_def)
  next
    fix hb
    show "(hb |\<in>| finsert ha A) = (\<exists>T. hb |\<in>| live_step (\<lambda>T'. String T' = String T) x (L T))"
      using assms(1) OpTrack rh by (auto simp: groups_inv_def)
  qed
  then show ?thesis
    using c by blast
next
  case (OpUntrack resource h)
  with assms(2) obtain r ha where rh: "resource = Some r" "h = Some ha"
    and u: "Untrack (Some r) (Some ha) s = (Returned, s')"
    by (cases resource; cases h) (auto simp: Untrack_def)
  have c: "conforms (A |-| {|ha|}) xs"
    using assms(3) OpUntrack rh by simp
  have hs: "\<And>hb. h_profile (handles s' hb) = h_profile (handles s hb)"
    using u by (auto simp: Untrack_eq Let_def split: option.splits)
  have "groups_inv (A |-| {|ha|}) (\<lambda>T. live_step (\<lambda>T'. String T' = String T) x (L T)) s'"
    unfolding groups_inv_def
  proof (intro conjI allI impI)
    fix T
    have l: "fmdom (members (groupKey T) s) = L T"
      using assms(1) by (simp add: groups_inv_def)
    have "ha |\<notin>| L T" if "groupKey T \<noteq> h_profile (handles s ha)"
      using that assms(1) by (auto simp: groups_inv_def)
    then have "fmdom (members (groupKey T) s') = L T |-| {|ha|}"
      using l by (cases "groupKey T = h_profile (handles s ha)")
        (auto simp: members_Untrack [OF u])
    then show "fmdom (members (groupKey T) s') = live_step (\<lambda>T'. String T' = String T) x (L T)"
      using OpUntrack rh by simp
  next
    fix T hb
    assume "hb |\<in>| live_step (\<lambda>T'. String T' = String T) x (L T)"
    then have "hb |\<in>| L T"
      using OpUntrack rh by simp
    then show "h_profile (handles s' hb) = groupKey T"
      using assms(1) by (simp add: hs groups_inv_def)
  next
    fix hb
    show "(hb |\<in>| A |-| {|ha|}) = (\<exists>T. hb |\<in>| live_step (\<lambda>T'. String T' = String T) x (L T))"
      using assms(1) OpUntrack rh by (auto simp: groups_inv_def)
  qed
  then show ?thesis
    using c by blast
next
  case (OpCollect r)
  then have "groups_inv A (\<lambda>T. live_step (\<lambda>T'. String T' = String T) x (L T)) s'"
    using assms(1,2) by (auto simp: groups_inv_def members_def Collect_frame)
  moreover have "conforms A xs"
    using assms(3) OpCollect by simp
  ultimately show ?thesis
    by blast
qed

lemma run_groups:
  assumes "groups_inv A L s" and "run symtab xs s = (Returned, s')" and "conforms A xs"
  shows "\<exists>A'. groups_inv A' (\<lambda>T. fold (live_step (\<lambda>T'. String T' = String T)) xs (L T)) s'"
  using assms
proof (induction xs arbitrary: A L s)
  case Nil
  then show ?case
    by auto
next
  case (Cons x xs)
  from Cons.prems(2) obtain s1 where e: "exec symtab x s = (Returned, s1)"
    and r: "run symtab xs s1 = (Returned, s')"
    by (auto simp: run_Cons_Returned simp del: run.simps)
  from exec_groups [OF Cons.prems(1) e Cons.prems(3)] obtain A1
    where "groups_inv A1 (\<lambda>T. live_step (\<lambda>T'. String T' = String T) x (L T)) s1"
      and "conforms A1 xs"
    by blast
  from Cons.IH [OF this(1) r this(2)] show ?case
    by simp
qed

lemma groups_init: "groups_inv {||} (\<lambda>T. {||}) init_world"
  by (simp add: groups_inv_def members_def init_world_def)

section \<open>Concurrent calls of Untrack: every call finishes\<close>

lemma ustep_steps_left: "steps_left (fst (ustep resource h t s)) \<le> steps_left t - 1"
  by (cases t) (auto simp: Swap_def Lookup_def split: option.splits)

lemma sched_length: "length (fst (sched resource h js (ts, s))) = length ts"
  by (induction js arbitrary: ts s) (auto split: prod.splits)

lemma sched_steps_left:
  "i < length ts \<Longrightarrow>
   steps_left (fst (sched resource h js (ts, s)) ! i) \<le> steps_left (ts ! i) - count_list js i"
proof (induction js arbitrary: ts s)
  case Nil
  then show ?case by simp
next
  case (Cons j js)
  show ?case
  proof (cases "j < length ts")
    case False
    then have "j \<noteq> i"
      using Cons.prems by auto
    then show ?thesis
      using False Cons.IH [OF Cons.prems, of s] by simp
  next
    case True
    obtain t' s' where u: "ustep resource h (ts ! j) s = (t', s')"
      by (cases "ustep resource h (ts ! j) s")
    have len: "i < length (ts[j := t'])"
      using Cons.prems by simp
    have one: "steps_left (ts[j := t'] ! i) \<le> steps_left (ts ! i) - (if j = i then 1 else 0)"
      using ustep_steps_left [of resource h "ts ! j" s] u Cons.prems
      by (auto simp: nth_list_update)
    have "steps_left (fst (sched resource h (j # js) (ts, s)) ! i) =
        steps_left (fst (sched resource h js (ts[j := t'], s')) ! i)"
      using True u by simp
    also have "\<dots> \<le> steps_left (ts[j := t'] ! i) - count_list js i"
      by (rule Cons.IH [OF len])
    also have "\<dots> \<le> steps_left (ts ! i) - count_list (j # js) i"
      using one by auto
    finally show ?thesis .
  qed
qed

lemma steps_left_0: "steps_left t = 0 \<longleftrightarrow> finished t"
  by (cases t) (simp_all add: finished_def)

lemma sched_finishes:
  assumes "\<forall>i<length ts. 6 \<le> count_list js i"
  shows "\<forall>t \<in> set (fst (sched resource h js (ts, s))). finished t"
proof
  fix t
  assume "t \<in> set (fst (sched resource h js (ts, s)))"
  then obtain i where i: "i < length ts" and t: "t = fst (sched resource h js (ts, s)) ! i"
    by (auto simp: in_set_conv_nth sched_length)
  have "steps_left (ts ! i) \<le> 6"
    by (cases "ts ! i") simp_all
  then have "steps_left t = 0"
    using sched_steps_left [OF i, of resource h js s] assms i t by auto
  then show "finished t"
    by (simp add: steps_left_0)
qed

section \<open>Concurrent calls of Untrack: what every step keeps\<close>

lemma filter_update_length:
  "i < length ts \<Longrightarrow>
   length (filter P (ts[i := y])) + (if P (ts ! i) then 1 else 0) =
   length (filter P ts) + (if P y then 1 else 0)"
proof (induction ts arbitrary: i)
  case Nil
  then show ?case by simp
next
  case (Cons t ts)
  then show ?case
    by (cases i) auto
qed

lemma in_set_updateD: "t \<in> set (ts[i := y]) \<Longrightarrow> t = y \<or> t \<in> set ts"
  using set_update_subset_insert [of ts i y] by auto

lemma untrack_inv_update:
  assumes "i < length ts"
    and "h_profile (handles s' ha) = g"
    and "profiles s' g = Some m'" and "fmdom m' = D \<or> fmdom m' = D |-| {|ha|}"
    and "returned t' \<or> (\<exists>t \<in> set ts. returned t) \<Longrightarrow> ha |\<notin>| fmdom m'"
    and "if h_c (handles s' ha) = None
         then length (filter holds ts) + (if holds t' then 1 else 0) =
              1 + (if holds (ts ! i) then 1 else 0)
         else h_c (handles s' ha) = Some k \<and> length (filter holds ts) = 0 \<and> \<not> holds t' \<and>
              (\<forall>t \<in> set ts. \<not> past_swap t) \<and> \<not> past_swap t'"
    and "\<forall>t \<in> set ts. point_ok k g t" and "point_ok k g t'"
    and "stopped_one t' \<or> (\<exists>t \<in> set ts. stopped_one t) \<Longrightarrow> cleanups s' k = None"
  shows "untrack_inv k ha g D (ts[i := t']) s'"
  unfolding untrack_inv_def
proof (intro conjI)
  show "h_profile (handles s' ha) = g"
    by (rule assms(2))
  show "\<exists>m. profiles s' g = Some m \<and> (fmdom m = D \<or> fmdom m = D |-| {|ha|}) \<and>
      ((\<exists>t \<in> set (ts[i := t']). returned t) \<longrightarrow> ha |\<notin>| fmdom m)"
    using assms(3,4,5) by (auto dest: in_set_updateD)
  show "if h_c (handles s' ha) = None then length (filter holds (ts[i := t'])) = 1
      else h_c (handles s' ha) = Some k \<and> length (filter holds (ts[i := t'])) = 0 \<and>
           (\<forall>t \<in> set (ts[i := t']). \<not> past_swap t)"
  proof (cases "h_c (handles s' ha) = None")
    case True
    then show ?thesis
      using assms(6) filter_update_length [OF assms(1), of holds t']
      by (auto split: if_splits)
  next
    case False
    then have "length (filter holds ts) = 0" "\<not> holds t'"
      using assms(6) by auto
    then have "length (filter holds (ts[i := t'])) = 0"
      using filter_update_length [OF assms(1), of holds t'] by (auto split: if_splits)
    then show ?thesis
      using False assms(6) by (auto dest: in_set_updateD)
  qed
  show "\<forall>t \<in> set (ts[i := t']). point_ok k g t"
    using assms(7,8) by (auto dest: in_set_updateD)
  show "(\<exists>t \<in> set (ts[i := t']). stopped_one t) \<longrightarrow> cleanups s' k = None"
    using assms(9) by (auto dest: in_set_updateD)
qed

lemma ustep_inv:
  assumes inv: "untrack_inv k ha g D ts s" and i: "i < length ts"
    and step: "ustep (Some r) (Some ha) (ts ! i) s = (t', s')"
  shows "untrack_inv k ha g D (ts[i := t']) s'"
proof -
  from inv obtain m where p: "h_profile (handles s ha) = g"
    and m: "profiles s g = Some m" and dm: "fmdom m = D \<or> fmdom m = D |-| {|ha|}"
    and ret: "(\<exists>t \<in> set ts. returned t) \<Longrightarrow> ha |\<notin>| fmdom m"
    and tok: "if h_c (handles s ha) = None then length (filter holds ts) = 1
       else h_c (handles s ha) = Some k \<and> length (filter holds ts) = 0 \<and>
            (\<forall>t \<in> set ts. \<not> past_swap t)"
    and ok: "\<forall>t \<in> set ts. point_ok k g t"
    and st: "(\<exists>t \<in> set ts. stopped_one t) \<Longrightarrow> cleanups s k = None"
    unfolding untrack_inv_def by blast
  have cur: "ts ! i \<in> set ts"
    using i by simp
  then have okc: "point_ok k g (ts ! i)"
    using ok by blast
  have stc: "stopped_one (ts ! i) \<Longrightarrow> cleanups s k = None"
    using st cur by blast
  show ?thesis
  proof (cases "ts ! i")
    case U_entry
    then have "t' = U_swap" "s' = s"
      using step by auto
    then show ?thesis
      using i p m dm ret tok ok st stc U_entry
      by (intro untrack_inv_update [where m' = m])
        (auto simp: holds_def stopped_one_def past_swap_def returned_def point_ok_def
          split: if_splits)
  next
    case U_swap
    then have t': "t' = U_stop (h_c (handles s ha))"
      and s': "s' = s\<lparr>handles := (handles s)(ha := (handles s ha)\<lparr>h_c := None\<rparr>)\<rparr>"
      using step by (auto simp: Swap_def Store_def)
    have "\<not> holds (ts ! i)"
      using U_swap by (simp add: holds_def stopped_one_def)
    then show ?thesis
      using i p m dm ret tok ok st stc U_swap t' s'
      by (intro untrack_inv_update [where m' = m])
        (auto simp: holds_def stopped_one_def past_swap_def returned_def point_ok_def
          split: if_splits)
  next
    case (U_stop old)
    then have old: "old = None \<or> old = Some k"
      using okc by (simp add: point_ok_def)
    have t': "t' = U_read (old \<noteq> None)"
      and s': "s' = (case old of None \<Rightarrow> s | Some k' \<Rightarrow> s\<lparr>cleanups := (cleanups s)(k' := None)\<rparr>)"
      using step U_stop by (auto simp: Stop_def split: option.splits)
    have past: "past_swap (ts ! i)"
      using U_stop by (simp add: past_swap_def)
    then have none: "h_c (handles s ha) = None"
      using tok cur by (auto split: if_splits)
    show ?thesis
      using i p m dm ret tok ok st stc U_stop t' s' old none
      by (intro untrack_inv_update [where m' = m])
        (auto simp: holds_def stopped_one_def past_swap_def returned_def point_ok_def
          split: if_splits option.splits)
  next
    case (U_read w)
    then have "t' = U_lookup w g" "s' = s"
      using step p by (auto simp: pprofEnabled_def)
    moreover have "h_c (handles s ha) = None"
      using tok cur U_read by (auto simp: past_swap_def split: if_splits)
    ultimately show ?thesis
      using i p m dm ret tok ok st stc U_read
      by (intro untrack_inv_update [where m' = m])
        (auto simp: holds_def stopped_one_def past_swap_def returned_def point_ok_def
          split: if_splits)
  next
    case (U_lookup w name)
    then have "name = g"
      using okc by (simp add: point_ok_def)
    then have "t' = U_remove w g" "s' = s"
      using step U_lookup m by (auto simp: Lookup_def)
    moreover have "h_c (handles s ha) = None"
      using tok cur U_lookup by (auto simp: past_swap_def split: if_splits)
    ultimately show ?thesis
      using i p m dm ret tok ok st stc U_lookup
      by (intro untrack_inv_update [where m' = m])
        (auto simp: holds_def stopped_one_def past_swap_def returned_def point_ok_def
          split: if_splits)
  next
    case (U_remove w name)
    then have "name = g"
      using okc by (simp add: point_ok_def)
    then have t': "t' = U_done w"
      and s': "s' = s\<lparr>profiles := (profiles s)(g \<mapsto> fmdrop ha m)\<rparr>"
      using step U_remove m by (auto simp: Remove_def)
    have none: "h_c (handles s ha) = None"
      using tok cur U_remove by (auto simp: past_swap_def split: if_splits)
    show ?thesis
      using i p m dm ret tok ok st stc U_remove t' s' none
      by (intro untrack_inv_update [where m' = "fmdrop ha m"])
        (auto simp: holds_def stopped_one_def past_swap_def returned_def point_ok_def
          split: if_splits)
  next
    case (U_done w)
    then have "t' = U_done w" "s' = s"
      using step by auto
    then have "ts[i := t'] = ts"
      using U_done by (simp add: list_update_same_conv i)
    then show ?thesis
      using inv \<open>s' = s\<close> by simp
  next
    case (U_panic msg)
    then show ?thesis
      using okc by (simp add: point_ok_def)
  qed
qed

lemma sched_inv:
  assumes "untrack_inv k ha g D ts s"
    and "sched (Some r) (Some ha) js (ts, s) = (ts', s')"
  shows "untrack_inv k ha g D ts' s'"
  using assms
proof (induction js arbitrary: ts s)
  case Nil
  then show ?case by simp
next
  case (Cons j js)
  show ?case
  proof (cases "j < length ts")
    case False
    then show ?thesis
      using Cons by simp
  next
    case True
    obtain t1 s1 where u: "ustep (Some r) (Some ha) (ts ! j) s = (t1, s1)"
      by (cases "ustep (Some r) (Some ha) (ts ! j) s")
    have "untrack_inv k ha g D (ts[j := t1]) s1"
      by (rule ustep_inv [OF Cons.prems(1) True u])
    moreover have "sched (Some r) (Some ha) js (ts[j := t1], s1) = (ts', s')"
      using Cons.prems(2) True u by simp
    ultimately show ?thesis
      by (rule Cons.IH)
  qed
qed

section \<open>Many calls of Untrack on one tracked handle\<close>

lemma ustep_fired: "fired (snd (ustep resource h t s)) = fired s"
  by (cases t)
    (auto simp: Swap_def Store_def Stop_def Lookup_def Remove_def split: option.splits)

lemma sched_fired: "fired (snd (sched resource h js (ts, s))) = fired s"
proof (induction js arbitrary: ts s)
  case Nil
  then show ?case by simp
next
  case (Cons j js)
  show ?case
  proof (cases "j < length ts")
    case True
    obtain t1 s1 where u: "ustep resource h (ts ! j) s = (t1, s1)"
      by (cases "ustep resource h (ts ! j) s")
    then have "fired s1 = fired s"
      using ustep_fired [of resource h "ts ! j" s] by simp
    then show ?thesis
      using True u Cons.IH [of "ts[j := t1]" s1] by simp
  next
    case False
    then show ?thesis
      using Cons.IH [of ts s] by simp
  qed
qed

text \<open>A call returns by the step \<open>p.Remove\<close> only: every call that returns has made it.\<close>

lemma ustep_returns_by_Remove:
  "ustep resource h t s = (U_done w, s') \<Longrightarrow> t = U_done w \<or> (\<exists>name. t = U_remove w name)"
  by (cases t) (auto simp: Swap_def Lookup_def pprofEnabled_def split: option.splits)

text \<open>One goroutine that takes its six steps alone makes the call \<open>Untrack\<close>.\<close>

lemma Untrack_is_six_steps:
  "\<exists>t. sched resource h [0, 0, 0, 0, 0, 0] ([U_entry], s) = ([t], snd (Untrack resource h s)) \<and>
       (case fst (Untrack resource h s) of Returned \<Rightarrow> returned t | Panicked m \<Rightarrow> t = U_panic m)"
  by (cases resource; cases h)
    (auto simp: Untrack_def Swap_def Store_def Stop_def Lookup_def Remove_def pprofEnabled_def
      returned_def Let_def split: option.splits)

lemma inv_start:
  assumes "Track T (Some r) (Some ha) st s0 = (Returned, s)"
  shows "untrack_inv (next_cleanup s0) ha (groupKey T) (fmdom (members (groupKey T) s))
           (replicate n U_entry) s"
    and "ha |\<in>| fmdom (members (groupKey T) s)"
  by (simp_all add: Track_Returned(3) [OF assms] untrack_inv_def members_def holds_def
      stopped_one_def past_swap_def point_ok_def returned_def)

lemma inv_finished:
  assumes inv: "untrack_inv k ha g D ts s" and ne: "ts \<noteq> []"
    and fin: "\<forall>t \<in> set ts. finished t" and mem: "ha |\<in>| D"
  shows "\<forall>t \<in> set ts. returned t" and "length (filter stopped_one ts) = 1"
    and "h_c (handles s ha) = None" and "cleanups s k = None"
    and "fmdom (members g s) = D |-| {|ha|}"
proof -
  from inv obtain m where m: "profiles s g = Some m" and dm: "fmdom m = D \<or> fmdom m = D |-| {|ha|}"
    and ret: "(\<exists>t \<in> set ts. returned t) \<Longrightarrow> ha |\<notin>| fmdom m"
    and tok: "if h_c (handles s ha) = None then length (filter holds ts) = 1
       else h_c (handles s ha) = Some k \<and> length (filter holds ts) = 0 \<and>
            (\<forall>t \<in> set ts. \<not> past_swap t)"
    and ok: "\<forall>t \<in> set ts. point_ok k g t"
    and st: "(\<exists>t \<in> set ts. stopped_one t) \<Longrightarrow> cleanups s k = None"
    unfolding untrack_inv_def by blast
  have dn: "\<exists>w. t = U_done w" if "t \<in> set ts" for t
  proof -
    have "finished t" and "point_ok k g t"
      using that fin ok by auto
    then show ?thesis
      by (cases t) (simp_all add: finished_def point_ok_def)
  qed
  then show all: "\<forall>t \<in> set ts. returned t"
    by (fastforce simp: returned_def)
  obtain t0 where t0: "t0 \<in> set ts"
    using ne by (cases ts) auto
  then have "past_swap t0"
    using dn by (fastforce simp: past_swap_def)
  then show none: "h_c (handles s ha) = None"
    using tok t0 by (auto split: if_splits)
  have "filter holds ts = filter stopped_one ts"
    using dn by (intro filter_cong) (fastforce simp: holds_def)+
  then show one: "length (filter stopped_one ts) = 1"
    using tok none by simp
  then have "filter stopped_one ts \<noteq> []"
    by auto
  then have "\<exists>t \<in> set ts. stopped_one t"
    by (auto simp: filter_empty_conv)
  then show "cleanups s k = None"
    by (rule st)
  have "ha |\<notin>| fmdom m"
    using ret all t0 by blast
  then show "fmdom (members g s) = D |-| {|ha|}"
    using dm mem m by (auto simp: members_def)
qed

lemma Untrack_idle:
  assumes "h_c (handles s ha) = None" and "profiles s (h_profile (handles s ha)) = Some m"
    and "ha |\<notin>| fmdom m"
  shows "Untrack (Some r) (Some ha) s = (Returned, s)"
proof -
  have "(handles s)(ha := (handles s ha)\<lparr>h_c := None\<rparr>) = handles s"
    using assms(1) by (auto simp: fun_eq_iff)
  moreover have "(profiles s)(h_profile (handles s ha) \<mapsto> fmdrop ha m) = profiles s"
    using assms(2,3) by (auto simp: fun_eq_iff fmdrop_idle)
  ultimately show ?thesis
    using assms(1,2) by (simp add: Untrack_eq)
qed

lemma Untrack_times_idle:
  assumes "h_c (handles s ha) = None" and "profiles s (h_profile (handles s ha)) = Some m"
    and "ha |\<notin>| fmdom m"
  shows "Untrack_times n (Some r) (Some ha) s = (replicate n Returned, s)"
  by (induction n) (simp_all add: Untrack_idle [OF assms])

lemma Untrack_tracked:
  assumes "Track T (Some r) (Some ha) st s0 = (Returned, s)"
  shows "\<exists>s' m. Untrack (Some r) (Some ha) s = (Returned, s') \<and>
      h_c (handles s' ha) = None \<and> profiles s' (h_profile (handles s' ha)) = Some m \<and>
      ha |\<notin>| fmdom m \<and> Count (groupKey T) s' + 1 = Count (groupKey T) s \<and>
      cleanups s' (next_cleanup s0) = None \<and> fired s' = fired s"
proof -
  have h: "h_profile (handles s ha) = groupKey T" "h_c (handles s ha) = Some (next_cleanup s0)"
    and m: "is_member (h_profile (handles s ha)) ha s"
    by (simp_all add: Track_Returned(3) [OF assms] is_member_def)
  from m obtain m0 where m0: "profiles s (groupKey T) = Some m0"
    by (auto simp: is_member_def h split: option.splits)
  have "Count (groupKey T) (snd (Untrack (Some r) (Some ha) s)) + 1 = Count (groupKey T) s"
    using Untrack_Count(2) [OF m, of r] by (simp add: h)
  then show ?thesis
    using h m0 by (simp add: Untrack_eq Let_def)
qed

text \<open>
  C2. Let \<open>Track\<close> have returned for the handle, and let \<open>n\<close> calls of \<open>Untrack\<close> of
  the handle follow, two or more. One after the other, they all return; the count of
  the group is one less after them than before, the handle holds no cleanup, and the
  cleanup that \<open>Track\<close> registered is disarmed. As goroutines whose steps are
  interleaved by any schedule that gives each of them its six steps, they all finish
  and all return; exactly one of them found the cleanup in the handle and stopped it
  (each of the others found nil, skipped \<open>Stop\<close> and went on to \<open>Lookup\<close> and
  \<open>Remove\<close>, the only way to return); the count of the group is one less, and the
  failure behaviour was not called.
\<close>

theorem Untrack_many:
  assumes "Track T (Some r) (Some ha) st s0 = (Returned, s)" and "2 \<le> n"
  shows "(\<exists>s'. Untrack_times n (Some r) (Some ha) s = (replicate n Returned, s') \<and>
              Count (groupKey T) s' + 1 = Count (groupKey T) s \<and>
              h_c (handles s' ha) = None \<and> cleanups s' (next_cleanup s0) = None \<and>
              fired s' = fired s) \<and>
         (\<forall>js. (\<forall>i<n. 6 \<le> count_list js i) \<longrightarrow>
            (case sched (Some r) (Some ha) js (replicate n U_entry, s) of
               (ts, s') \<Rightarrow>
                 length ts = n \<and> (\<forall>t \<in> set ts. returned t) \<and>
                 length (filter stopped_one ts) = 1 \<and>
                 Count (groupKey T) s' + 1 = Count (groupKey T) s \<and>
                 h_c (handles s' ha) = None \<and> cleanups s' (next_cleanup s0) = None \<and>
                 fired s' = fired s))"
proof (intro conjI allI impI)
  from Untrack_tracked [OF assms(1)] obtain s1 m
    where u: "Untrack (Some r) (Some ha) s = (Returned, s1)"
      and idle: "h_c (handles s1 ha) = None" "profiles s1 (h_profile (handles s1 ha)) = Some m"
        "ha |\<notin>| fmdom m"
      and rest: "Count (groupKey T) s1 + 1 = Count (groupKey T) s"
        "cleanups s1 (next_cleanup s0) = None" "fired s1 = fired s"
    by blast
  obtain n' where n: "n = Suc n'"
    using assms(2) by (cases n) auto
  have "Untrack_times n (Some r) (Some ha) s = (replicate n Returned, s1)"
    using u Untrack_times_idle [OF idle, of n' r] by (simp add: n)
  then show "\<exists>s'. Untrack_times n (Some r) (Some ha) s = (replicate n Returned, s') \<and>
      Count (groupKey T) s' + 1 = Count (groupKey T) s \<and>
      h_c (handles s' ha) = None \<and> cleanups s' (next_cleanup s0) = None \<and>
      fired s' = fired s"
    using idle(1) rest by blast
next
  fix js
  assume enough: "\<forall>i<n. 6 \<le> count_list js i"
  let ?D = "fmdom (members (groupKey T) s)"
  obtain ts s' where run: "sched (Some r) (Some ha) js (replicate n U_entry, s) = (ts, s')"
    by (cases "sched (Some r) (Some ha) js (replicate n U_entry, s)")
  have len: "length ts = n"
    using sched_length [of "Some r" "Some ha" js "replicate n U_entry" s] run by simp
  then have ne: "ts \<noteq> []"
    using assms(2) by auto
  have fin: "\<forall>t \<in> set ts. finished t"
    using sched_finishes [of "replicate n U_entry" js "Some r" "Some ha" s] enough run by simp
  have inv: "untrack_inv (next_cleanup s0) ha (groupKey T) ?D ts s'"
    by (rule sched_inv [OF inv_start(1) [OF assms(1)] run])
  note f = inv_finished [OF inv ne fin inv_start(2) [OF assms(1)]]
  have "Count (groupKey T) s' + 1 = Count (groupKey T) s"
    using f(5) fcard_Suc_fminus1 [OF inv_start(2) [OF assms(1)]] by (simp add: Count_members)
  moreover have "fired s' = fired s"
    using sched_fired [of "Some r" "Some ha" js "replicate n U_entry" s] run by simp
  ultimately show "case sched (Some r) (Some ha) js (replicate n U_entry, s) of
      (ts, s') \<Rightarrow>
        length ts = n \<and> (\<forall>t \<in> set ts. returned t) \<and>
        length (filter stopped_one ts) = 1 \<and>
        Count (groupKey T) s' + 1 = Count (groupKey T) s \<and>
        h_c (handles s' ha) = None \<and> cleanups s' (next_cleanup s0) = None \<and>
        fired s' = fired s"
    using run len f(1,2,3,4) by simp
qed

theorem Untrack_many_witness:
  "Track ex_T (Some 1) (Some 2) ex_st init_world = (Returned, ex_tracked) \<and>
   Count (groupKey ex_T) ex_tracked = 1 \<and>
   fst (Untrack_times 3 (Some 1) (Some 2) ex_tracked) = [Returned, Returned, Returned] \<and>
   Count (groupKey ex_T) (snd (Untrack_times 3 (Some 1) (Some 2) ex_tracked)) = 0 \<and>
   length (filter stopped_one (fst (sched (Some 1) (Some 2)
      [0, 1, 2, 2, 1, 0, 0, 1, 2, 0, 1, 2, 2, 1, 0, 2, 1, 0]
      (replicate 3 U_entry, ex_tracked)))) = 1 \<and>
   length (filter returned (fst (sched (Some 1) (Some 2)
      [0, 1, 2, 2, 1, 0, 0, 1, 2, 0, 1, 2, 2, 1, 0, 2, 1, 0]
      (replicate 3 U_entry, ex_tracked)))) = 3 \<and>
   Count (groupKey ex_T) (snd (sched (Some 1) (Some 2)
      [0, 1, 2, 2, 1, 0, 0, 1, 2, 0, 1, 2, 2, 1, 0, 2, 1, 0]
      (replicate 3 U_entry, ex_tracked))) = 0"
proof -
  let ?js = "[0, 1, 2, 2, 1, 0, 0, 1, 2, 0, 1, 2, 2, 1, 0, 2, 1, 0] :: nat list"
  have c: "Count (groupKey ex_T) ex_tracked = 1"
    by (simp add: Count_def ex_tracked_eq groupKey_def pprofPrefix_def ex_T_def)
  have n: "(2::nat) \<le> 3"
    by simp
  have e: "\<forall>i<3. 6 \<le> count_list ?js i"
  proof (intro allI impI)
    fix i :: nat
    assume "i < 3"
    then have "i = 0 \<or> i = 1 \<or> i = 2"
      by auto
    then show "6 \<le> count_list ?js i"
      by auto
  qed
  note m = Untrack_many [OF ex_Track_returned n]
  from m [THEN conjunct1] obtain s1
    where seq: "Untrack_times 3 (Some 1) (Some 2) ex_tracked = (replicate 3 Returned, s1)"
      and c1: "Count (groupKey ex_T) s1 + 1 = Count (groupKey ex_T) ex_tracked"
    by (elim exE conjE)
  have r3: "replicate 3 Returned = [Returned, Returned, Returned]"
    by (simp add: numeral_3_eq_3)
  obtain ts s' where run: "sched (Some 1) (Some 2) ?js (replicate 3 U_entry, ex_tracked) = (ts, s')"
    by (cases "sched (Some 1) (Some 2) ?js (replicate 3 U_entry, ex_tracked)")
  from mp [OF spec [OF m [THEN conjunct2], of ?js] e] have "case sched (Some 1) (Some 2) ?js (replicate 3 U_entry, ex_tracked) of
      (ts, s') \<Rightarrow>
        length ts = 3 \<and> (\<forall>t \<in> set ts. returned t) \<and>
        length (filter stopped_one ts) = 1 \<and>
        Count (groupKey ex_T) s' + 1 = Count (groupKey ex_T) ex_tracked \<and>
        h_c (handles s' 2) = None \<and> cleanups s' (next_cleanup init_world) = None \<and>
        fired s' = fired ex_tracked" .
  then have conc: "length ts = 3" "\<forall>t \<in> set ts. returned t" "length (filter stopped_one ts) = 1"
    "Count (groupKey ex_T) s' + 1 = Count (groupKey ex_T) ex_tracked"
    unfolding run prod.case by blast+
  have "filter returned ts = ts"
    using conc(2) by (simp add: filter_id_conv)
  then have "length (filter returned ts) = 3"
    using conc(1) by simp
  then show ?thesis
    using ex_Track_returned c seq c1 r3 run conc(3,4)
    by (simp del: sched.simps Untrack_times.simps)
qed

section \<open>Goroutines that track and untrack: what a step does\<close>

lemma ustep_effect:
  assumes "ustep resource (Some h) u s = (u', s')"
  shows "\<forall>a. a \<noteq> h \<longrightarrow> handles s' a = handles s a"
    and "\<forall>a. h_profile (handles s' a) = h_profile (handles s a)"
    and "\<forall>name. (profiles s' name = None) = (profiles s name = None)"
    and "(\<forall>w n. u \<noteq> U_remove w n) \<longrightarrow> profiles s' = profiles s"
  using assms
  by (cases u; auto simp: Swap_def Store_def Stop_def Lookup_def Remove_def
      split: option.splits if_splits)+

lemma tstep_effect:
  assumes "tstep c t (l, s) = (t', l', s')"
  shows "(\<forall>a. a \<noteq> c_h c \<longrightarrow> handles s' a = handles s a) \<and>
    (\<forall>name. profiles s name \<noteq> None \<longrightarrow> profiles s' name \<noteq> None) \<and>
    ((\<forall>p. t \<noteq> T_new p) \<longrightarrow> (\<forall>name. (profiles s' name = None) = (profiles s name = None))) \<and>
    ((\<forall>p. t \<noteq> T_profile p) \<longrightarrow>
           h_profile (handles s' (c_h c)) = h_profile (handles s (c_h c))) \<and>
    ((\<forall>p. t \<noteq> T_add p) \<and> (\<forall>w n. t \<noteq> T_untrack (U_remove w n)) \<longrightarrow>
           (\<forall>name. fmdom (members name s') = fmdom (members name s)))"
proof (cases "\<exists>u. t = T_untrack u")
  case True
  then obtain u where t: "t = T_untrack u"
    by blast
  obtain u' where u: "ustep (Some (c_r c)) (Some (c_h c)) u s = (u', s')"
    using assms t by (auto split: prod.splits)
  note e = ustep_effect [OF u]
  show ?thesis
    using e t by (simp add: members_def)
next
  case False
  note defs = Lookup_def NewProfile_def Add_def set_profile_def set_typ_def set_pcs_def
    AddCleanup_def Store_def Let_def members_def
  show ?thesis
    using assms False
    by (cases t; simp add: defs split: option.splits if_splits prod.splits; force)
qed

lemma tstep_ok_self:
  assumes "tpoint_ok c s t" and "tstep c t (l, s) = (t', l', s')" and "c_r c \<noteq> c_h c"
    and "\<not> is_member (groupKey (c_T c)) (c_h c) s \<or> (\<forall>p. t \<noteq> T_add p)"
  shows "tpoint_ok c s' t'"
proof (cases "\<exists>u. t = T_untrack u")
  case True
  then obtain u where t: "t = T_untrack u"
    by blast
  then show ?thesis
    using assms(1,2)
    by (cases u)
      (auto simp: tpoint_ok_def Let_def Swap_def Store_def Stop_def Lookup_def Remove_def
        pprofEnabled_def split: option.splits if_splits)
next
  case False
  then show ?thesis
    using assms
    by (cases t)
      (auto simp: tpoint_ok_def Let_def Lookup_def NewProfile_def Add_def set_profile_def
        set_typ_def set_pcs_def AddCleanup_def Store_def is_member_def pprofEnabled_def
        split: option.splits if_splits prod.splits)
qed

lemma tstep_ok_other:
  assumes "tpoint_ok c' s tj" and "c_h c' \<noteq> c_h c" and "tstep c t (l, s) = (t', l', s')"
    and "\<not> (in_cs t \<and> in_cs tj)"
  shows "tpoint_ok c' s' tj"
proof -
  note e = tstep_effect [OF assms(3)]
  have h: "handles s' (c_h c') = handles s (c_h c')"
    using e assms(2) by simp
  have up: "\<And>name. profiles s name \<noteq> None \<Longrightarrow> profiles s' name \<noteq> None"
    using e by blast
  have none: "profiles s' name = None" if "profiles s name = None" and "in_cs tj" for name
  proof -
    have "\<forall>p. t \<noteq> T_new p"
      using that(2) assms(4) by (auto simp: in_cs_def)
    then show ?thesis
      using e that(1) by simp
  qed
  show ?thesis
    using assms(1) h up none
    by (cases tj) (auto simp: tpoint_ok_def Let_def in_cs_def split: upoint.splits)
qed

lemma tstep_lock:
  assumes "tstep c t (l, s) = (t', l', s')" and "tpoint_ok c s t" and "in_cs t \<longrightarrow> l"
  shows "(if l' then 1 else 0) + (if in_cs t then 1 else 0) =
         (if l then 1 else (0::nat)) + (if in_cs t' then 1 else 0)"
proof (cases "\<exists>u. t = T_untrack u")
  case True
  then show ?thesis
    using assms(1) by (auto simp: in_cs_def split: prod.splits)
next
  case False
  then show ?thesis
    using assms
    by (cases t)
      (auto simp: in_cs_def tpoint_ok_def Let_def Lookup_def NewProfile_def Add_def
        AddCleanup_def split: option.splits if_splits prod.splits)
qed

lemma tstep_members:
  assumes "tstep c t (l, s) = (t', l', s')" and "tpoint_ok c s t" and "c_r c \<noteq> c_h c"
    and "\<not> is_member (groupKey (c_T c)) (c_h c) s \<or> (\<forall>p. t \<noteq> T_add p)"
  shows "(a |\<in>| fmdom (members name s')) =
     (if tracking t' \<and> \<not> tracking t
      then a |\<in>| fmdom (members name s) \<or> (name = groupKey (c_T c) \<and> a = c_h c)
      else if tracking t \<and> \<not> tracking t'
      then a |\<in>| fmdom (members name s) \<and> \<not> (name = groupKey (c_T c) \<and> a = c_h c)
      else a |\<in>| fmdom (members name s))"
proof (cases "\<exists>u. t = T_untrack u")
  case True
  then obtain u where t: "t = T_untrack u"
    by blast
  then show ?thesis
    using assms(1,2)
    by (cases u)
      (auto simp: tpoint_ok_def Let_def Swap_def Store_def Stop_def Lookup_def Remove_def
        pprofEnabled_def tracking_def finished_def members_def
        split: option.splits if_splits)
next
  case False
  then show ?thesis
    using assms
    by (cases t)
      (auto simp: tpoint_ok_def Let_def Lookup_def NewProfile_def Add_def set_profile_def
        set_typ_def set_pcs_def AddCleanup_def Store_def is_member_def pprofEnabled_def
        tracking_def finished_def members_def
        split: option.splits if_splits prod.splits)
qed

section \<open>Goroutines that track and untrack: what every step keeps\<close>

lemma filter_nonempty_nth: "i < length ts \<Longrightarrow> P (ts ! i) \<Longrightarrow> 1 \<le> length (filter P ts)"
proof -
  assume "i < length ts" and "P (ts ! i)"
  then have "ts ! i \<in> set (filter P ts)"
    by simp
  then have "filter P ts \<noteq> []"
    by (metis empty_iff list.set(1))
  then show ?thesis
    by (cases "filter P ts") simp_all
qed

lemma filter_two_nth:
  assumes "i < length ts" and "j < length ts" and "i \<noteq> j" and "P (ts ! i)" and "P (ts ! j)"
  shows "2 \<le> length (filter P ts)"
proof -
  let ?ts = "ts[i := ts ! j]"
  have "length (filter P ?ts) + 1 = length (filter P ts) + 1"
    using filter_update_length [OF assms(1), of P "ts ! j"] assms(4,5) by simp
  have "\<not> P x \<Longrightarrow> length (filter P (ts[i := x])) + 1 = length (filter P ts)" for x
    using filter_update_length [OF assms(1), of P x] assms(4) by simp
  moreover have "1 \<le> length (filter P (ts[i := x]))" for x
    using filter_nonempty_nth [of j "ts[i := x]" P] assms(2,3,5) by simp
  ultimately show ?thesis
  proof (cases "\<exists>x. \<not> P x")
    case True
    then obtain x where "\<not> P x"
      by blast
    then show ?thesis
      using \<open>\<And>x. \<not> P x \<Longrightarrow> length (filter P (ts[i := x])) + 1 = length (filter P ts)\<close>
        \<open>\<And>x. 1 \<le> length (filter P (ts[i := x]))\<close> [of x]
      by fastforce
  next
    case False
    then have "filter P ts = ts"
      by (simp add: filter_id_conv)
    then show ?thesis
      using assms(1,2,3) by (cases ts; cases "tl ts") auto
  qed
qed

lemma tstep_inv:
  assumes ok: "calls_ok cs s0" and inv: "pairs_inv cs s0 ts l s" and i: "i < length cs"
    and step: "tstep (cs ! i) (ts ! i) (l, s) = (t', l', s')"
  shows "pairs_inv cs s0 (ts[i := t']) l' s'"
proof -
  let ?g = "groupKey (c_T (cs ! i))" and ?h = "c_h (cs ! i)"
  from inv have len: "length ts = length cs"
    and P: "\<And>j. j < length cs \<Longrightarrow> tpoint_ok (cs ! j) s (ts ! j)"
    and L: "length (filter in_cs ts) = (if l then 1 else 0)"
    and M: "\<And>name a. (a |\<in>| fmdom (members name s)) =
           (a |\<in>| fmdom (members name s0) \<or>
            (\<exists>j < length cs. c_h (cs ! j) = a \<and> groupKey (c_T (cs ! j)) = name \<and>
                 tracking (ts ! j)))"
    unfolding pairs_inv_def by blast+
  have dist: "j = i" if "j < length cs" and "c_h (cs ! j) = ?h" for j
  proof -
    have "distinct (map c_h cs)"
      using ok by (simp add: calls_ok_def)
    then show ?thesis
      using nth_eq_iff_index_eq [of "map c_h cs" j i] that i by simp
  qed
  have ci: "cs ! i \<in> set cs"
    using i by simp
  then have ri: "c_r (cs ! i) \<noteq> ?h" and h0: "\<And>name. ?h |\<notin>| fmdom (members name s0)"
    using ok by (auto simp: calls_ok_def is_member_members)
  have notmem: "\<not> is_member ?g ?h s \<or> (\<forall>p. ts ! i \<noteq> T_add p)"
  proof (cases "\<exists>p. ts ! i = T_add p")
    case True
    then have "\<not> tracking (ts ! i)"
      by (auto simp: tracking_def)
    then have "?h |\<notin>| fmdom (members ?g s)"
      using M [of ?h ?g] h0 [of ?g] dist by auto
    then show ?thesis
      by (simp add: is_member_members)
  next
    case False
    then show ?thesis
      by simp
  qed
  have csl: "in_cs (ts ! i) \<longrightarrow> l"
    using filter_nonempty_nth [of i ts in_cs] L i len by (auto split: if_splits)
  have "length (ts[i := t']) = length cs"
    using len by simp
  moreover have "\<forall>j < length cs. tpoint_ok (cs ! j) s' (ts[i := t'] ! j)"
  proof (intro allI impI)
    fix j
    assume j: "j < length cs"
    show "tpoint_ok (cs ! j) s' (ts[i := t'] ! j)"
    proof (cases "j = i")
      case True
      then show ?thesis
        using tstep_ok_self [OF P [OF i] step ri notmem] i len by simp
    next
      case False
      have "\<not> (in_cs (ts ! i) \<and> in_cs (ts ! j))"
        using filter_two_nth [of i ts j in_cs] False i j len L by (auto split: if_splits)
      moreover have "c_h (cs ! j) \<noteq> ?h"
        using dist [OF j] False by blast
      ultimately show ?thesis
        using tstep_ok_other [OF P [OF j] _ step] False by simp
    qed
  qed
  moreover have "length (filter in_cs (ts[i := t'])) = (if l' then 1 else 0)"
    using filter_update_length [of i ts in_cs t'] tstep_lock [OF step P [OF i] csl] L i len
    by (auto split: if_splits)
  moreover have "(a |\<in>| fmdom (members name s')) =
      (a |\<in>| fmdom (members name s0) \<or>
       (\<exists>j < length cs. c_h (cs ! j) = a \<and> groupKey (c_T (cs ! j)) = name \<and>
            tracking (ts[i := t'] ! j)))" for name a
  proof -
    let ?O = "\<exists>j < length cs. j \<noteq> i \<and> c_h (cs ! j) = a \<and> groupKey (c_T (cs ! j)) = name \<and>
        tracking (ts ! j)"
    have old: "(\<exists>j < length cs. c_h (cs ! j) = a \<and> groupKey (c_T (cs ! j)) = name \<and>
        tracking (ts ! j)) = ((a = ?h \<and> name = ?g \<and> tracking (ts ! i)) \<or> ?O)"
      using i by auto
    have new: "(\<exists>j < length cs. c_h (cs ! j) = a \<and> groupKey (c_T (cs ! j)) = name \<and>
        tracking (ts[i := t'] ! j)) = ((a = ?h \<and> name = ?g \<and> tracking t') \<or> ?O)"
      using i len by (auto simp: nth_list_update)
    have noO: "\<not> ?O" if "a = ?h"
      using that dist by blast
    show ?thesis
      unfolding new tstep_members [OF step P [OF i] ri notmem, of a name] M [of a name] old
      using noO h0 [of name] by auto
  qed
  ultimately show ?thesis
    unfolding pairs_inv_def by blast
qed

lemma psched_inv:
  assumes "calls_ok cs s0" and "pairs_inv cs s0 ts l s"
    and "psched cs js (ts, l, s) = (ts', l', s')"
  shows "pairs_inv cs s0 ts' l' s'"
  using assms(2,3)
proof (induction js arbitrary: ts l s)
  case Nil
  then show ?case by simp
next
  case (Cons j js)
  show ?case
  proof (cases "j < length ts \<and> j < length cs")
    case False
    then show ?thesis
      using Cons by auto
  next
    case True
    obtain t1 l1 s1 where u: "tstep (cs ! j) (ts ! j) (l, s) = (t1, l1, s1)"
      by (cases "tstep (cs ! j) (ts ! j) (l, s)")
    have "pairs_inv cs s0 (ts[j := t1]) l1 s1"
      using tstep_inv [OF assms(1) Cons.prems(1) _ u] True by simp
    moreover have "psched cs js (ts[j := t1], l1, s1) = (ts', l', s')"
      using Cons.prems(2) True u by simp
    ultimately show ?thesis
      by (rule Cons.IH)
  qed
qed

section \<open>Goroutines that track and untrack: the count of a group\<close>

lemma pairs_start:
  "pairs_inv cs s0 (replicate (length cs) T_entry) False s0"
  by (simp add: pairs_inv_def tpoint_ok_def in_cs_def tracking_def cong: conj_cong)

lemma fcard_fset_of_list_distinct: "distinct xs \<Longrightarrow> fcard (fset_of_list xs) = length xs"
  by (simp add: fcard.rep_eq fset_of_list.rep_eq distinct_card)

lemma trackers_handles:
  assumes "length ts = length cs"
  shows "set (map (c_h \<circ> fst) (trackers name cs ts)) =
     {a. \<exists>j < length cs. c_h (cs ! j) = a \<and> groupKey (c_T (cs ! j)) = name \<and> tracking (ts ! j)}"
  using assms by (auto simp: trackers_def set_zip image_iff) blast

lemma trackers_distinct:
  assumes "length ts = length cs" and "distinct (map c_h cs)"
  shows "distinct (map (c_h \<circ> fst) (trackers name cs ts))"
proof -
  have "map (c_h \<circ> fst) (zip cs ts) = map c_h cs"
    using assms(1) by (simp add: map_fst_zip flip: map_map)
  then have "distinct (map (c_h \<circ> fst) (zip cs ts))"
    using assms(2) by simp
  then show ?thesis
    unfolding trackers_def by (rule distinct_map_filter)
qed

lemma pairs_count:
  assumes "calls_ok cs s0" and "pairs_inv cs s0 ts l s"
  shows "Count name s = Count name s0 + length (trackers name cs ts)"
proof -
  let ?W = "fset_of_list (map (c_h \<circ> fst) (trackers name cs ts))"
  from assms(2) have len: "length ts = length cs"
    and M: "\<And>a. (a |\<in>| fmdom (members name s)) =
           (a |\<in>| fmdom (members name s0) \<or>
            (\<exists>j < length cs. c_h (cs ! j) = a \<and> groupKey (c_T (cs ! j)) = name \<and>
                 tracking (ts ! j)))"
    unfolding pairs_inv_def by blast+
  have W: "(a |\<in>| ?W) =
      (\<exists>j < length cs. c_h (cs ! j) = a \<and> groupKey (c_T (cs ! j)) = name \<and> tracking (ts ! j))"
    for a
    using trackers_handles [OF len, of name] by (simp only: fset_of_list_elem) blast
  have "fmdom (members name s) = fmdom (members name s0) |\<union>| ?W"
    using M W by (intro fset_eqI) simp
  moreover have "fmdom (members name s0) |\<inter>| ?W = {||}"
  proof (intro fset_eqI)
    fix a
    have "a |\<notin>| fmdom (members name s0)" if "a |\<in>| ?W"
    proof -
      from that obtain j where "j < length cs" and "c_h (cs ! j) = a"
        using W by blast
      then have "cs ! j \<in> set cs"
        by simp
      then show ?thesis
        using assms(1) \<open>c_h (cs ! j) = a\<close> by (auto simp: calls_ok_def is_member_members)
    qed
    then show "(a |\<in>| fmdom (members name s0) |\<inter>| ?W) = (a |\<in>| {||})"
      by auto
  qed
  moreover have "fcard ?W = length (trackers name cs ts)"
    using fcard_fset_of_list_distinct [OF trackers_distinct [OF len, of name]] assms(1)
    by (simp add: calls_ok_def)
  ultimately show ?thesis
    by (simp add: Count_members fcard_funion_disjoint)
qed

lemma pairs_no_panic:
  assumes "pairs_inv cs s0 ts l s"
  shows "\<forall>t \<in> set ts. \<not> panicked t"
proof
  fix t
  assume "t \<in> set ts"
  then obtain j where "j < length ts" and "t = ts ! j"
    by (auto simp: in_set_conv_nth)
  then have "tpoint_ok (cs ! j) s t"
    using assms by (simp add: pairs_inv_def)
  then show "\<not> panicked t"
    by (cases t) (auto simp: tpoint_ok_def panicked_def Let_def split: upoint.splits)
qed

lemma pairs_interleaved:
  assumes "calls_ok cs s0"
    and "psched cs js (replicate (length cs) T_entry, False, s0) = (ts, l, s)"
  shows "\<forall>t \<in> set ts. \<not> panicked t"
    and "Count name s = Count name s0 + length (trackers name cs ts)"
proof -
  have inv: "pairs_inv cs s0 ts l s"
    by (rule psched_inv [OF assms(1) pairs_start assms(2)])
  show "\<forall>t \<in> set ts. \<not> panicked t"
    by (rule pairs_no_panic [OF inv])
  show "Count name s = Count name s0 + length (trackers name cs ts)"
    by (rule pairs_count [OF assms(1) inv])
qed

lemma Add_eq:
  "profiles s name \<noteq> None \<Longrightarrow>
   Add name v 2 st s =
     (if is_member name v s then (Panicked ''pprof: Profile.Add of duplicate value'', s)
      else (Returned,
            s\<lparr>profiles := (profiles s)(name \<mapsto> fmupd v (Add_stack st) (members name s))\<rparr>))"
  by (auto simp: Add_def is_member_def members_def Add_stack_def Callers_in_Add Let_def)

lemma String_TypeOf: "String (TypeOf T) = CHR ''*'' # String T"
  by (simp add: TypeOf_def)

text \<open>A goroutine that takes its steps alone makes the call \<open>Track\<close>.\<close>

lemma Track_is_steps:
  assumes "Track (c_T c) (Some (c_r c)) (Some (c_h c)) (c_st c) s = (Returned, s')"
  shows "psched [c] (replicate (if profiles s (groupKey (c_T c)) = None then 12 else 8) 0)
           ([T_entry], False, s) = ([T_untrack U_entry], False, s')"
proof -
  note t = Track_Returned [OF assms]
  have r: "replicate 12 (0::nat) = [0, 0, 0, 0, 0, 0, 0, 0, 0, 0, 0, 0]"
    "replicate 8 (0::nat) = [0, 0, 0, 0, 0, 0, 0, 0]"
    by (simp_all add: eval_nat_numeral)
  note defs = r pprofEnabled_def collectStack_def Lookup_def
    NewProfile_def Add_eq set_profile_def set_typ_def set_pcs_def AddCleanup_def
    Store_def String_TypeOf Callers_in_Track is_member_def members_def
  show ?thesis
  proof (cases "profiles s (groupKey (c_T c))")
    case None
    then show ?thesis
      using t(2) by (simp add: t(3) defs)
  next
    case (Some m0)
    then show ?thesis
      using t(1,2) by (simp add: t(3) defs)
  qed
qed

section \<open>The count of a group, in runs and under interleaving\<close>

text \<open>
  C5, as amended. Let the process have reached a state by calls that returned and by
  collections, in which no handle was given to \<open>Track\<close> again while it was tracked.
  Then the count of the group of a type \<open>T\<close> is the number of the handles that were
  tracked, and not untracked since, for a resource of a type printed as \<open>T\<close> is (the
  group is named after the printed type, which types of two packages can share). Every
  call of \<open>Track\<close> for the type that returns adds exactly one to the count of its group,
  and \<open>Untrack\<close> of a handle that is tracked in the group returns and takes exactly one
  off. And when goroutines start in this state that each call \<open>Track\<close> and then
  \<open>Untrack\<close>, with handles of their own, then under every interleaving of their steps
  and at every moment none has panicked, and the count of the group is the count at the
  start and the number of the goroutines of the group that are between the return of
  \<open>p.Add\<close> and the return of \<open>p.Remove\<close>.
\<close>

theorem group_count:
  assumes "run symtab xs init_world = (Returned, s)" and "conforms {||} xs"
  shows "Count (groupKey T) s = fcard (live_in_group T xs) \<and>
         (\<forall>r ha st s'. Track T (Some r) (Some ha) st s = (Returned, s') \<longrightarrow>
              Count (groupKey T) s' = Count (groupKey T) s + 1) \<and>
         (\<forall>r ha. ha |\<in>| live_in_group T xs \<longrightarrow>
              fst (Untrack (Some r) (Some ha) s) = Returned \<and>
              Count (groupKey T) (snd (Untrack (Some r) (Some ha) s)) + 1 = Count (groupKey T) s) \<and>
         (\<forall>cs js. calls_ok cs s \<longrightarrow>
              (case psched cs js (replicate (length cs) T_entry, False, s) of
                 (ts, l, s') \<Rightarrow>
                   (\<forall>t \<in> set ts. \<not> panicked t) \<and>
                   Count (groupKey T) s' =
                     Count (groupKey T) s + length (trackers (groupKey T) cs ts)))"
proof -
  from run_groups [OF groups_init assms] obtain A
    where "groups_inv A (\<lambda>T. fold (live_step (\<lambda>T'. String T' = String T)) xs {||}) s"
    by blast
  then have dom: "fmdom (members (groupKey T) s) = live_in_group T xs"
    and key: "\<And>ha. ha |\<in>| live_in_group T xs \<Longrightarrow> h_profile (handles s ha) = groupKey T"
    by (simp_all add: groups_inv_def live_in_group_def live_def)
  have "Count (groupKey T) s = fcard (live_in_group T xs)"
    using dom by (simp add: Count_members)
  moreover have "fst (Untrack (Some r) (Some ha) s) = Returned \<and>
      Count (groupKey T) (snd (Untrack (Some r) (Some ha) s)) + 1 = Count (groupKey T) s"
    if "ha |\<in>| live_in_group T xs" for r ha
  proof -
    have "is_member (h_profile (handles s ha)) ha s"
      using that dom key [OF that] by (simp add: is_member_members)
    from Untrack_Count [OF this, of r] show ?thesis
      by (simp add: key [OF that])
  qed
  moreover have "case psched cs js (replicate (length cs) T_entry, False, s) of
      (ts, l, s') \<Rightarrow>
        (\<forall>t \<in> set ts. \<not> panicked t) \<and>
        Count (groupKey T) s' = Count (groupKey T) s + length (trackers (groupKey T) cs ts)"
    if "calls_ok cs s" for cs js
  proof -
    obtain ts l s' where p: "psched cs js (replicate (length cs) T_entry, False, s) = (ts, l, s')"
      by (cases "psched cs js (replicate (length cs) T_entry, False, s)")
    show ?thesis
      using pairs_interleaved [OF that p] by (simp add: p)
  qed
  ultimately show ?thesis
    by (simp add: Track_Count)
qed

lemma ex_interleaved:
  "psched ex_calls ex_js (replicate 2 T_entry, False, init_world) =
     ([T_profile ''resource/resource.Resource'', T_profile ''resource/resource.Resource''], False,
      init_world\<lparr>profiles := [''resource/resource.Resource'' \<mapsto>
         fmupd 4 [100, 1934, 1268] (fmupd 2 [100, 1934, 1268] fmempty)]\<rparr>)"
proof -
  have r: "replicate 2 T_entry = [T_entry, T_entry]"
    by (simp add: eval_nat_numeral)
  have g: "groupKey ex_T = ''resource/resource.Resource''"
    by (simp add: groupKey_def pprofPrefix_def ex_T_def)
  have a: "Add_stack ex_st = [100, 1934, 1268]"
    by (simp add: Add_stack_def ex_st_def)
  show ?thesis
    by (simp add: r g a ex_calls_def ex_js_def pprofEnabled_def Lookup_def NewProfile_def
        Add_eq is_member_def members_def init_world_def)
qed

theorem group_count_witness:
  "run ex_symtab [OpTrack ex_T (Some 1) (Some 2) ex_st] init_world = (Returned, ex_tracked) \<and>
   conforms {||} [OpTrack ex_T (Some 1) (Some 2) ex_st] \<and>
   live_in_group ex_T [OpTrack ex_T (Some 1) (Some 2) ex_st] = {|2|} \<and>
   Count (groupKey ex_T) ex_tracked = 1 \<and>
   fst (Untrack (Some 1) (Some 2) ex_tracked) = Returned \<and>
   Count (groupKey ex_T) (snd (Untrack (Some 1) (Some 2) ex_tracked)) = 0 \<and>
   run ex_symtab [] init_world = (Returned, init_world) \<and>
   calls_ok ex_calls init_world \<and>
   length (trackers (groupKey ex_T) ex_calls
      (fst (psched ex_calls ex_js (replicate 2 T_entry, False, init_world)))) = 2 \<and>
   Count (groupKey ex_T)
      (snd (snd (psched ex_calls ex_js (replicate 2 T_entry, False, init_world)))) = 2"
proof -
  have c: "conforms {||} [OpTrack ex_T (Some 1) (Some 2) ex_st]"
    by simp
  have l: "live_in_group ex_T [OpTrack ex_T (Some 1) (Some 2) ex_st] = {|2|}"
    by (simp add: live_in_group_def live_def)
  have first: "Count (groupKey ex_T) ex_tracked = 1 \<and>
      fst (Untrack (Some 1) (Some 2) ex_tracked) = Returned \<and>
      Count (groupKey ex_T) (snd (Untrack (Some 1) (Some 2) ex_tracked)) = 0"
    using group_count [OF ex_run c, of ex_T] l
    by (auto simp del: run.simps conforms.simps dest: spec [of _ 1])
  have r0: "run ex_symtab [] init_world = (Returned, init_world)" and c0: "conforms {||} []"
    by simp_all
  have ok: "calls_ok ex_calls init_world"
    by (simp add: calls_ok_def ex_calls_def)
  have len: "length ex_calls = 2"
    by (simp add: ex_calls_def)
  have c0': "Count (groupKey ex_T) init_world = 0"
    by (simp add: Count_def init_world_def)
  have tr: "length (trackers (groupKey ex_T) ex_calls
      (fst (psched ex_calls ex_js (replicate 2 T_entry, False, init_world)))) = 2"
    unfolding ex_interleaved fst_conv
    by (simp add: trackers_def ex_calls_def tracking_def groupKey_def pprofPrefix_def ex_T_def)
  from group_count [OF r0 c0, of ex_T, THEN conjunct2, THEN conjunct2, THEN conjunct2,
      THEN spec, THEN spec, THEN mp, OF ok, of ex_js]
  have "Count (groupKey ex_T)
      (snd (snd (psched ex_calls ex_js (replicate 2 T_entry, False, init_world)))) =
      Count (groupKey ex_T) init_world +
      length (trackers (groupKey ex_T) ex_calls
        (fst (psched ex_calls ex_js (replicate 2 T_entry, False, init_world))))"
    by (simp add: len split: prod.splits)
  then show ?thesis
    using first ex_run [of ex_symtab] c l r0 ok tr c0'
    by (simp del: run.simps conforms.simps)
qed

text \<open>
  C5, as stated, fails: one resource of the type \<open>Resource\<close> of this package is
  tracked, none of the type \<open>Resource\<close> of another package named \<open>resource\<close>, and
  the count of the group of that other type is one.
\<close>

theorem group_count_other_type:
  "run ex_symtab [OpTrack ex_T (Some 1) (Some 2) ex_st] init_world = (Returned, ex_tracked) \<and>
   conforms {||} [OpTrack ex_T (Some 1) (Some 2) ex_st] \<and>
   ex_T2 \<noteq> ex_T \<and>
   fcard (live_of_type ex_T2 [OpTrack ex_T (Some 1) (Some 2) ex_st]) = 0 \<and>
   Count (groupKey ex_T2) ex_tracked = 1"
proof -
  have "Count (groupKey ex_T2) ex_tracked = 1"
    by (simp add: Count_def ex_tracked_eq groupKey_def pprofPrefix_def ex_T2_def)
  then show ?thesis
    using ex_run [of ex_symtab]
    by (simp add: live_of_type_def live_def ex_T_def ex_T2_def del: run.simps)
qed

end
